theory Spec2Isabelle
  imports Main "HOL-Library.Word"
begin

unbundle bit_operations_syntax

section \<open>Bytes, integers and errors\<close>

text \<open>
  The client of \<^verbatim>\<open>register.py\<close> (class \<^verbatim>\<open>MiniSocketClient\<close>) frames requests for a
  length-prefixed binary protocol. Python \<^verbatim>\<open>bytes\<close> are lists of 8-bit words, Python
  integers are unbounded (\<open>int\<close>, or \<open>nat\<close> for lengths), and every exception the code can
  raise is a value of \<open>error\<close>; a function that may raise returns \<open>error + 'a\<close>.
\<close>

type_synonym byte = "8 word"
type_synonym bytes = "byte list"

datatype error =
    OverflowError
  | RuntimeError string
  | ValueError
  | ExtraData
  | FormatError
  | StackError
  | UnicodeDecodeError
  | TypeError
  | OSError
  | CancelledError
  | NotModelled

text \<open>\<^verbatim>\<open>data[a:b]\<close> for \<open>0 \<le> a \<le> b\<close>: Python slices never raise, they clip.\<close>

definition py_slice :: "nat \<Rightarrow> nat \<Rightarrow> 'a list \<Rightarrow> 'a list" where
  "py_slice a b xs = take (b - a) (drop a xs)"

text \<open>\<^verbatim>\<open>int.from_bytes(bs, "big")\<close>; the empty string gives 0.\<close>

definition from_bytes :: "bytes \<Rightarrow> nat" where
  "from_bytes bs = foldl (\<lambda>a b. a * 256 + unat b) 0 bs"

text \<open>The \<open>k\<close> low-order bytes of \<open>n\<close>, most significant first.\<close>

fun be_bytes :: "nat \<Rightarrow> nat \<Rightarrow> bytes" where
  "be_bytes 0 n = []"
| "be_bytes (Suc k) n = be_bytes k (n div 256) @ [of_nat n]"

text \<open>
  \<^verbatim>\<open>x.to_bytes(k, "big")\<close> (unsigned): raises \<^verbatim>\<open>OverflowError\<close> for a negative \<open>x\<close> and
  for one that does not fit in \<open>k\<close> bytes.
\<close>

definition to_bytes :: "nat \<Rightarrow> int \<Rightarrow> error + bytes" where
  "to_bytes k x = (if x < 0 \<or> 256 ^ k \<le> x then Inl OverflowError else Inr (be_bytes k (nat x)))"

section \<open>Payload values and their msgpack serialisation\<close>

text \<open>
  The structured payload values: \<^verbatim>\<open>None\<close>, booleans, integers, \<^verbatim>\<open>str\<close> (held as its
  UTF-8 encoding), \<^verbatim>\<open>bytes\<close>, lists and dicts (in insertion order). Floats and msgpack
  extension types are outside this model.
\<close>

datatype pyval =
    PNone
  | PBool bool
  | PInt int
  | PStr bytes
  | PBytes bytes
  | PList "pyval list"
  | PDict "(pyval \<times> pyval) list"

text \<open>The integer formats of \<^verbatim>\<open>msgpack.packb\<close> (the smallest format that holds the value).\<close>

definition pack_int :: "int \<Rightarrow> error + bytes" where
  "pack_int d =
    (if d < - 32 then
       (if d < - 32768 then
          (if d < - 2147483648 then
             (if d < - 9223372036854775808 then Inl OverflowError
              else Inr (0xd3 # be_bytes 8 (nat (d mod 18446744073709551616))))
           else Inr (0xd2 # be_bytes 4 (nat (d mod 4294967296))))
        else if d < - 128 then Inr (0xd1 # be_bytes 2 (nat (d mod 65536)))
        else Inr (0xd0 # be_bytes 1 (nat (d mod 256))))
     else if d < 128 then Inr (be_bytes 1 (nat (d mod 256)))
     else if d < 256 then Inr (0xcc # be_bytes 1 (nat d))
     else if d < 65536 then Inr (0xcd # be_bytes 2 (nat d))
     else if d < 4294967296 then Inr (0xce # be_bytes 4 (nat d))
     else if d < 18446744073709551616 then Inr (0xcf # be_bytes 8 (nat d))
     else Inl OverflowError)"

definition pack_str_head :: "nat \<Rightarrow> error + bytes" where
  "pack_str_head n =
    (if n < 32 then Inr (be_bytes 1 (0xa0 + n))
     else if n < 256 then Inr (0xd9 # be_bytes 1 n)
     else if n < 65536 then Inr (0xda # be_bytes 2 n)
     else if n < 4294967296 then Inr (0xdb # be_bytes 4 n)
     else Inl ValueError)"

definition pack_bin_head :: "nat \<Rightarrow> error + bytes" where
  "pack_bin_head n =
    (if n < 256 then Inr (0xc4 # be_bytes 1 n)
     else if n < 65536 then Inr (0xc5 # be_bytes 2 n)
     else if n < 4294967296 then Inr (0xc6 # be_bytes 4 n)
     else Inl ValueError)"

definition pack_array_head :: "nat \<Rightarrow> error + bytes" where
  "pack_array_head n =
    (if n < 16 then Inr (be_bytes 1 (0x90 + n))
     else if n < 65536 then Inr (0xdc # be_bytes 2 n)
     else if n < 4294967296 then Inr (0xdd # be_bytes 4 n)
     else Inl ValueError)"

definition pack_map_head :: "nat \<Rightarrow> error + bytes" where
  "pack_map_head n =
    (if n < 16 then Inr (be_bytes 1 (0x80 + n))
     else if n < 65536 then Inr (0xde # be_bytes 2 n)
     else if n < 4294967296 then Inr (0xdf # be_bytes 4 n)
     else Inl ValueError)"

text \<open>Sequencing of fallible steps: the first exception wins.\<close>

definition bind_bytes :: "error + bytes \<Rightarrow> error + bytes \<Rightarrow> error + bytes" where
  "bind_bytes a b =
    (case a of Inl e \<Rightarrow> Inl e | Inr x \<Rightarrow> (case b of Inl e \<Rightarrow> Inl e | Inr y \<Rightarrow> Inr (x @ y)))"

text \<open>
  \<^verbatim>\<open>Packer._pack(o, nest_limit)\<close>: the first argument is \<^verbatim>\<open>nest_limit + 1\<close>, so \<open>0\<close> is
  the library's \<^verbatim>\<open>nest_limit < 0\<close>, "recursion limit exceeded".
\<close>

fun pack_obj :: "nat \<Rightarrow> pyval \<Rightarrow> error + bytes"
  and pack_items :: "nat \<Rightarrow> pyval list \<Rightarrow> error + bytes"
  and pack_pairs :: "nat \<Rightarrow> (pyval \<times> pyval) list \<Rightarrow> error + bytes"
where
  "pack_obj 0 v = Inl ValueError"
| "pack_obj (Suc n) PNone = Inr [0xc0]"
| "pack_obj (Suc n) (PBool b) = Inr [if b then 0xc3 else 0xc2]"
| "pack_obj (Suc n) (PInt d) = pack_int d"
| "pack_obj (Suc n) (PStr s) = bind_bytes (pack_str_head (length s)) (Inr s)"
| "pack_obj (Suc n) (PBytes s) = bind_bytes (pack_bin_head (length s)) (Inr s)"
| "pack_obj (Suc n) (PList xs) = bind_bytes (pack_array_head (length xs)) (pack_items n xs)"
| "pack_obj (Suc n) (PDict kvs) = bind_bytes (pack_map_head (length kvs)) (pack_pairs n kvs)"
| "pack_items n [] = Inr []"
| "pack_items n (x # xs) = bind_bytes (pack_obj n x) (pack_items n xs)"
| "pack_pairs n [] = Inr []"
| "pack_pairs n ((k, v) # kvs) =
     bind_bytes (pack_obj n k) (bind_bytes (pack_obj n v) (pack_pairs n kvs))"

text \<open>\<^verbatim>\<open>msgpack.packb(payload)\<close> with the default nesting limit of 511.\<close>

definition packb :: "pyval \<Rightarrow> error + bytes" where
  "packb v = pack_obj 512 v"

section \<open>Deserialisation: \<^verbatim>\<open>msgpack.unpackb(data, raw=False, strict_map_key=False)\<close>\<close>

text \<open>
  Strict UTF-8 (no overlong forms, no surrogates, nothing above U+10FFFF), which is what
  decoding a msgpack \<^verbatim>\<open>str\<close> with \<^verbatim>\<open>raw=False\<close> demands.
\<close>

definition cont :: "byte \<Rightarrow> bool" where
  "cont b = (0x80 \<le> unat b \<and> unat b \<le> 0xBF)"

fun utf8_valid :: "bytes \<Rightarrow> bool" where
  "utf8_valid [] = True"
| "utf8_valid (a # bs) =
    (let x = unat a in
     if x < 0x80 then utf8_valid bs
     else if 0xC2 \<le> x \<and> x \<le> 0xDF then
       (case bs of b # r \<Rightarrow> cont b \<and> utf8_valid r | _ \<Rightarrow> False)
     else if 0xE0 \<le> x \<and> x \<le> 0xEF then
       (case bs of b # c # r \<Rightarrow>
          cont b \<and> cont c \<and> (x = 0xE0 \<longrightarrow> 0xA0 \<le> unat b) \<and> (x = 0xED \<longrightarrow> unat b \<le> 0x9F)
          \<and> utf8_valid r
        | _ \<Rightarrow> False)
     else if 0xF0 \<le> x \<and> x \<le> 0xF4 then
       (case bs of b # c # d # r \<Rightarrow>
          cont b \<and> cont c \<and> cont d \<and> (x = 0xF0 \<longrightarrow> 0x90 \<le> unat b)
          \<and> (x = 0xF4 \<longrightarrow> unat b \<le> 0x8F) \<and> utf8_valid r
        | _ \<Rightarrow> False)
     else False)"

text \<open>
  What one msgpack header announces: a finished scalar, or a container with its number of
  elements.
\<close>

datatype head = HVal pyval | HArray nat | HMap nat

text \<open>Reading \<open>n\<close> bytes; running out of input is "incomplete input", a \<^verbatim>\<open>ValueError\<close>.\<close>

definition read_n :: "nat \<Rightarrow> bytes \<Rightarrow> error + (bytes \<times> bytes)" where
  "read_n n bs = (if length bs < n then Inl ValueError else Inr (take n bs, drop n bs))"

definition read_str :: "nat \<Rightarrow> bytes \<Rightarrow> error + (head \<times> bytes)" where
  "read_str n bs =
    (case read_n n bs of
       Inl e \<Rightarrow> Inl e
     | Inr (s, r) \<Rightarrow> if utf8_valid s then Inr (HVal (PStr s), r) else Inl UnicodeDecodeError)"

definition read_bin :: "nat \<Rightarrow> bytes \<Rightarrow> error + (head \<times> bytes)" where
  "read_bin n bs =
    (case read_n n bs of Inl e \<Rightarrow> Inl e | Inr (s, r) \<Rightarrow> Inr (HVal (PBytes s), r))"

definition with_len ::
  "nat \<Rightarrow> bytes \<Rightarrow> (nat \<Rightarrow> bytes \<Rightarrow> error + (head \<times> bytes)) \<Rightarrow> error + (head \<times> bytes)" where
  "with_len k bs f = (case read_n k bs of Inl e \<Rightarrow> Inl e | Inr (h, r) \<Rightarrow> f (from_bytes h) r)"

definition read_uint :: "nat \<Rightarrow> bytes \<Rightarrow> error + (head \<times> bytes)" where
  "read_uint k bs = with_len k bs (\<lambda>v r. Inr (HVal (PInt (int v)), r))"

definition read_sint :: "nat \<Rightarrow> bytes \<Rightarrow> error + (head \<times> bytes)" where
  "read_sint k bs =
    with_len k bs
      (\<lambda>v r. Inr (HVal (PInt (if 2 * v < 256 ^ k then int v else int v - 256 ^ k)), r))"

fun read_head :: "bytes \<Rightarrow> error + (head \<times> bytes)" where
  "read_head [] = Inl ValueError"
| "read_head (b # bs) =
    (let t = unat b in
     if t < 0x80 then Inr (HVal (PInt (int t)), bs)
     else if t < 0x90 then Inr (HMap (t - 0x80), bs)
     else if t < 0xa0 then Inr (HArray (t - 0x90), bs)
     else if t < 0xc0 then read_str (t - 0xa0) bs
     else if t = 0xc0 then Inr (HVal PNone, bs)
     else if t = 0xc1 then Inl FormatError
     else if t = 0xc2 then Inr (HVal (PBool False), bs)
     else if t = 0xc3 then Inr (HVal (PBool True), bs)
     else if t = 0xc4 then with_len 1 bs read_bin
     else if t = 0xc5 then with_len 2 bs read_bin
     else if t = 0xc6 then with_len 4 bs read_bin
     else if t < 0xcc then Inl NotModelled
     else if t = 0xcc then read_uint 1 bs
     else if t = 0xcd then read_uint 2 bs
     else if t = 0xce then read_uint 4 bs
     else if t = 0xcf then read_uint 8 bs
     else if t = 0xd0 then read_sint 1 bs
     else if t = 0xd1 then read_sint 2 bs
     else if t = 0xd2 then read_sint 4 bs
     else if t = 0xd3 then read_sint 8 bs
     else if t < 0xd9 then Inl NotModelled
     else if t = 0xd9 then with_len 1 bs read_str
     else if t = 0xda then with_len 2 bs read_str
     else if t = 0xdb then with_len 4 bs read_str
     else if t = 0xdc then with_len 2 bs (\<lambda>n r. Inr (HArray n, r))
     else if t = 0xdd then with_len 4 bs (\<lambda>n r. Inr (HArray n, r))
     else if t = 0xde then with_len 2 bs (\<lambda>n r. Inr (HMap n, r))
     else if t = 0xdf then with_len 4 bs (\<lambda>n r. Inr (HMap n, r))
     else Inr (HVal (PInt (int t - 256)), bs))"

text \<open>
  Python dictionaries: \<^verbatim>\<open>True == 1\<close> and \<^verbatim>\<open>False == 0\<close> are the same key; lists and dicts
  are unhashable; storing under a key that is present keeps the old key object and its
  place and replaces the value.
\<close>

fun key_norm :: "pyval \<Rightarrow> pyval" where
  "key_norm (PBool b) = PInt (if b then 1 else 0)"
| "key_norm v = v"

fun hashable :: "pyval \<Rightarrow> bool" where
  "hashable (PList xs) = False"
| "hashable (PDict kvs) = False"
| "hashable v = True"

fun dict_set :: "(pyval \<times> pyval) list \<Rightarrow> pyval \<Rightarrow> pyval \<Rightarrow> (pyval \<times> pyval) list" where
  "dict_set [] k v = [(k, v)]"
| "dict_set ((k', v') # d) k v =
    (if key_norm k' = key_norm k then (k', v) # d else (k', v') # dict_set d k v)"

text \<open>
  One object from the front of the input, with the rest of the input. The first argument
  bounds the nesting of containers (the unpacker's stack, 1024 deep).
\<close>

fun unpack_obj :: "nat \<Rightarrow> bytes \<Rightarrow> error + (pyval \<times> bytes)"
  and unpack_items :: "nat \<Rightarrow> nat \<Rightarrow> bytes \<Rightarrow> error + (pyval list \<times> bytes)"
  and unpack_pairs ::
    "nat \<Rightarrow> nat \<Rightarrow> bytes \<Rightarrow> (pyval \<times> pyval) list \<Rightarrow> error + ((pyval \<times> pyval) list \<times> bytes)"
where
  "unpack_obj d bs =
    (case read_head bs of
       Inl e \<Rightarrow> Inl e
     | Inr (HVal v, r) \<Rightarrow> Inr (v, r)
     | Inr (HArray n, r) \<Rightarrow>
         (case d of
            0 \<Rightarrow> Inl StackError
          | Suc d' \<Rightarrow>
              (case unpack_items d' n r of Inl e \<Rightarrow> Inl e | Inr (xs, r') \<Rightarrow> Inr (PList xs, r')))
     | Inr (HMap n, r) \<Rightarrow>
         (case d of
            0 \<Rightarrow> Inl StackError
          | Suc d' \<Rightarrow>
              (case unpack_pairs d' n r [] of
                 Inl e \<Rightarrow> Inl e
               | Inr (kvs, r') \<Rightarrow> Inr (PDict kvs, r'))))"
| "unpack_items d 0 bs = Inr ([], bs)"
| "unpack_items d (Suc n) bs =
    (case unpack_obj d bs of
       Inl e \<Rightarrow> Inl e
     | Inr (x, r) \<Rightarrow>
         (case unpack_items d n r of Inl e \<Rightarrow> Inl e | Inr (xs, r') \<Rightarrow> Inr (x # xs, r')))"
| "unpack_pairs d 0 bs acc = Inr (acc, bs)"
| "unpack_pairs d (Suc n) bs acc =
    (case unpack_obj d bs of
       Inl e \<Rightarrow> Inl e
     | Inr (k, r) \<Rightarrow>
         (case unpack_obj d r of
            Inl e \<Rightarrow> Inl e
          | Inr (v, r') \<Rightarrow>
              if hashable k then unpack_pairs d n r' (dict_set acc k v) else Inl TypeError))"

text \<open>The whole input must be one object: bytes left over raise \<^verbatim>\<open>ExtraData\<close>.\<close>

definition unpackb :: "bytes \<Rightarrow> error + pyval" where
  "unpackb data =
    (case unpack_obj 1024 data of
       Inl e \<Rightarrow> Inl e
     | Inr (v, r) \<Rightarrow> if r = [] then Inr v else Inl ExtraData)"

text \<open>
  The values that a Python program can hold, among those of \<open>pyval\<close>: a \<^verbatim>\<open>str\<close> is
  valid UTF-8, and the keys of a \<^verbatim>\<open>dict\<close> are hashable and pairwise different as Python
  compares them.
\<close>

fun py_wf :: "pyval \<Rightarrow> bool" where
  "py_wf (PStr s) = utf8_valid s"
| "py_wf (PList xs) = (\<forall>x \<in> set xs. py_wf x)"
| "py_wf (PDict kvs) =
    ((\<forall>(k, v) \<in> set kvs. hashable k \<and> py_wf k \<and> py_wf v)
     \<and> distinct (map (\<lambda>kv. key_norm (fst kv)) kvs))"
| "py_wf v = True"

section \<open>LZ4 block decompression: \<^verbatim>\<open>lz4.block.decompress(src, uncompressed_size=cap)\<close>\<close>

text \<open>
  The Python binding hands the block to \<^verbatim>\<open>LZ4_decompress_safe\<close> of liblz4 with a
  destination of \<open>cap\<close> bytes. The decoder below follows \<^verbatim>\<open>LZ4_decompress_generic\<close>
  (liblz4 1.9.4, the whole block, no dictionary, built with the fast decoding loop) branch
  by branch. A block is a run of sequences: a token byte (high nibble the number of
  literals, low nibble the match length minus 4, a nibble of 15 continued by further
  bytes), the literals, a 2-byte little-endian offset and the match. Positions are indices
  into \<open>src\<close> (\<open>iend\<close> is \<open>length src\<close>), the output pointer \<open>op\<close> is the length of the bytes
  written so far and \<open>oend\<close> is \<open>cap\<close>; a pointer comparison such as \<^verbatim>\<open>ip > iend - 17\<close> is
  written with the subtraction moved to the other side.
\<close>

text \<open>
  \<^verbatim>\<open>read_variable_length(&ip, ilimit, initial_check)\<close> with \<open>ilimit = iend - k\<close>: the bytes
  of a continued length are added up to the first one below 255; it fails when the
  position passes the limit. The result is the sum and the new position. The first test
  of the loop guards the read of \<open>src\<close>; the decoder never calls it at the end of the input.
\<close>

function rvl_loop :: "bytes \<Rightarrow> nat \<Rightarrow> nat \<Rightarrow> nat \<Rightarrow> (nat \<times> nat) option" where
  "rvl_loop src k ip acc =
    (if length src \<le> ip then None
     else
       let s = unat (src ! ip) in
       if length src < Suc ip + k then None
       else if s = 255 then rvl_loop src k (Suc ip) (acc + s)
       else Some (acc + s, Suc ip))"
  by pat_completeness auto
termination
  by (relation "measure (\<lambda>(src, k, ip, acc). length src - ip)") auto

declare rvl_loop.simps [simp del]

definition read_variable_length :: "bytes \<Rightarrow> nat \<Rightarrow> bool \<Rightarrow> nat \<Rightarrow> (nat \<times> nat) option" where
  "read_variable_length src k initial_check ip =
    (if initial_check \<and> length src \<le> ip + k then None else rvl_loop src k ip 0)"

text \<open>\<^verbatim>\<open>LZ4_readLE16(ip)\<close> and the literals of a sequence.\<close>

definition readLE16 :: "bytes \<Rightarrow> nat \<Rightarrow> nat" where
  "readLE16 src ip = unat (src ! ip) + 256 * unat (src ! Suc ip)"

definition literals :: "bytes \<Rightarrow> nat \<Rightarrow> nat \<Rightarrow> bytes" where
  "literals src ip n = take n (drop ip src)"

text \<open>
  Copying a match of \<open>n\<close> bytes from \<open>off\<close> bytes back: the copy may overlap its own
  output, and each of the copy routines of the decoder then gives what a copy byte by byte
  gives. Offset 0, which the format forbids, is not refused: the copy routines clear the
  first four bytes of the destination before copying them onto themselves, and the match
  comes out as \<open>n\<close> zero bytes.
\<close>

fun match_copy :: "bytes \<Rightarrow> nat \<Rightarrow> nat \<Rightarrow> bytes" where
  "match_copy out off 0 = out"
| "match_copy out off (Suc n) = match_copy (out @ [out ! (length out - off)]) off n"

definition copy_match :: "bytes \<Rightarrow> nat \<Rightarrow> nat \<Rightarrow> bytes" where
  "copy_match out off n = (if off = 0 then out @ replicate n 0 else match_copy out off n)"

text \<open>
  What one sequence leaves: an error (\<^verbatim>\<open>goto _output_error\<close>), the end of the block with
  the output, or the next sequence, in the fast loop or in the safe one, at a position and
  with the output so far.
\<close>

datatype lz4_step = Fail | Done bytes | Next bool nat bytes

text \<open>
  From the label \<^verbatim>\<open>safe_match_copy\<close>: a match that starts before the output is an error,
  and so is one that ends within \<^verbatim>\<open>LASTLITERALS\<close> = 5 bytes of the capacity. \<open>n\<close> is the
  match length, \<^verbatim>\<open>MINMATCH\<close> = 4 included.
\<close>

definition safe_match_copy :: "nat \<Rightarrow> bytes \<Rightarrow> nat \<Rightarrow> nat \<Rightarrow> nat \<Rightarrow> lz4_step" where
  "safe_match_copy cap out off n ip =
    (if length out < off then Fail
     else if cap < length out + n + 5 then Fail
     else Next False ip (copy_match out off n))"

text \<open>
  From the label \<^verbatim>\<open>_copy_match\<close>: the match length is completed, the read limit being
  \<^verbatim>\<open>iend - LASTLITERALS + 1\<close>.
\<close>

definition copy_match_stage :: "bytes \<Rightarrow> nat \<Rightarrow> bytes \<Rightarrow> nat \<Rightarrow> nat \<Rightarrow> nat \<Rightarrow> lz4_step" where
  "copy_match_stage src cap out off ml ip =
    (if ml = 15 then
       (case read_variable_length src 4 False ip of
          None \<Rightarrow> Fail
        | Some (addl, ip') \<Rightarrow> safe_match_copy cap out off (15 + addl + 4) ip')
     else safe_match_copy cap out off (ml + 4) ip)"

text \<open>
  From the label \<^verbatim>\<open>safe_literal_copy\<close>, \<open>ip\<close> at the first of \<open>lit\<close> literals: when the
  literals end within \<^verbatim>\<open>MFLIMIT\<close> = 12 bytes of the capacity or fewer than 8 input bytes
  follow them, this is the last sequence, and the input must end exactly with the
  literals, which must fit; otherwise the offset is read and the match follows.
\<close>

definition safe_literal_copy :: "bytes \<Rightarrow> nat \<Rightarrow> bytes \<Rightarrow> nat \<Rightarrow> nat \<Rightarrow> nat \<Rightarrow> lz4_step" where
  "safe_literal_copy src cap out token lit ip =
    (if cap < length out + lit + 12 \<or> length src < ip + lit + 8 then
       (if ip + lit = length src \<and> length out + lit \<le> cap
        then Done (out @ literals src ip lit) else Fail)
     else copy_match_stage src cap (out @ literals src ip lit)
            (readLE16 src (ip + lit)) (token mod 16) (ip + lit + 2))"

text \<open>
  One pass of the safe loop, \<open>ip\<close> at the token. The shortcut is taken for fewer than 15
  literals when more than 16 input bytes follow the token and 32 bytes of output are free;
  its second stage copies a match of at most 18 bytes from 8 or more bytes back, and
  anything else goes on at \<^verbatim>\<open>_copy_match\<close>.
\<close>

definition safe_sequence :: "bytes \<Rightarrow> nat \<Rightarrow> nat \<Rightarrow> bytes \<Rightarrow> lz4_step" where
  "safe_sequence src cap ip out =
    (let token = unat (src ! ip); lit = token div 16; ml = token mod 16; ip1 = Suc ip in
     if lit \<noteq> 15 \<and> ip1 + 16 < length src \<and> length out + 32 \<le> cap then
       (let out1 = out @ literals src ip1 lit;
            off = readLE16 src (ip1 + lit);
            ip3 = ip1 + lit + 2
        in if ml \<noteq> 15 \<and> 8 \<le> off \<and> off \<le> length out1
           then Next False ip3 (match_copy out1 off (ml + 4))
           else copy_match_stage src cap out1 off ml ip3)
     else if lit = 15 then
       (case read_variable_length src 15 True ip1 of
          None \<Rightarrow> Fail
        | Some (addl, ip2) \<Rightarrow> safe_literal_copy src cap out token (15 + addl) ip2)
     else safe_literal_copy src cap out token lit ip1)"

text \<open>
  The match of a sequence of the fast loop, \<open>ip\<close> at the offset: a match that would end
  within \<^verbatim>\<open>FASTLOOP_SAFE_DISTANCE\<close> = 64 bytes of the capacity is left to
  \<^verbatim>\<open>safe_match_copy\<close> and the safe loop; the fast loop tests only that the match does
  not start before the output.
\<close>

definition fast_match :: "bytes \<Rightarrow> nat \<Rightarrow> bytes \<Rightarrow> nat \<Rightarrow> nat \<Rightarrow> lz4_step" where
  "fast_match src cap out ml ip =
    (let off = readLE16 src ip; ip2 = ip + 2 in
     if ml = 15 then
       (case read_variable_length src 4 False ip2 of
          None \<Rightarrow> Fail
        | Some (addl, ip3) \<Rightarrow>
            let n = 15 + addl + 4 in
            if length out < off then Fail
            else if cap \<le> length out + n + 64 then safe_match_copy cap out off n ip3
            else Next True ip3 (copy_match out off n))
     else
       let n = ml + 4 in
       if cap \<le> length out + n + 64 then safe_match_copy cap out off n ip2
       else if length out < off then Fail
       else Next True ip2 (copy_match out off n))"

text \<open>
  One pass of the fast loop, \<open>ip\<close> at the token. Fewer than 15 literals are copied without
  any end-of-block test as long as 17 input bytes follow the token; 15 or more as long as
  32 bytes of input and of output remain behind them; otherwise the sequence is left to
  \<^verbatim>\<open>safe_literal_copy\<close>.
\<close>

definition fast_sequence :: "bytes \<Rightarrow> nat \<Rightarrow> nat \<Rightarrow> bytes \<Rightarrow> lz4_step" where
  "fast_sequence src cap ip out =
    (let token = unat (src ! ip); lit = token div 16; ml = token mod 16; ip1 = Suc ip in
     if lit = 15 then
       (case read_variable_length src 15 True ip1 of
          None \<Rightarrow> Fail
        | Some (addl, ip2) \<Rightarrow>
            if cap < length out + (15 + addl) + 32 \<or> length src < ip2 + (15 + addl) + 32
            then safe_literal_copy src cap out token (15 + addl) ip2
            else fast_match src cap (out @ literals src ip2 (15 + addl)) ml (ip2 + (15 + addl)))
     else if length src < ip1 + 17 then safe_literal_copy src cap out token lit ip1
     else fast_match src cap (out @ literals src ip1 lit) ml (ip1 + lit))"

definition lz4_sequence :: "bool \<Rightarrow> bytes \<Rightarrow> nat \<Rightarrow> nat \<Rightarrow> bytes \<Rightarrow> lz4_step" where
  "lz4_sequence fast src cap ip out =
    (if fast then fast_sequence src cap ip out else safe_sequence src cap ip out)"

text \<open>Every sequence that is followed by another one moves the position forward.\<close>

lemma rvl_loop_forward: "rvl_loop src k ip acc = Some (a, ip') \<Longrightarrow> ip < ip'"
proof (induction src k ip acc rule: rvl_loop.induct)
  case (1 src k ip acc)
  from "1.prems" have u:
    "(if length src \<le> ip then None
      else if length src < Suc ip + k then None
      else if unat (src ! ip) = 255 then rvl_loop src k (Suc ip) (acc + unat (src ! ip))
      else Some (acc + unat (src ! ip), Suc ip)) = Some (a, ip')"
    by (subst (asm) rvl_loop.simps) (auto simp: Let_def split: if_splits)
  show ?case
  proof (cases "unat (src ! ip) = 255")
    case True
    with u have r: "rvl_loop src k (Suc ip) (acc + unat (src ! ip)) = Some (a, ip')"
      and c: "\<not> length src \<le> ip" "\<not> length src < Suc ip + k"
      by (auto split: if_splits)
    from "1.IH" [OF c(1) refl c(2) True r] show ?thesis by simp
  next
    case False
    with u show ?thesis by (auto split: if_splits)
  qed
qed

lemma read_variable_length_forward:
  "read_variable_length src k c ip = Some (a, ip') \<Longrightarrow> ip < ip'"
  by (auto simp: read_variable_length_def split: if_splits dest: rvl_loop_forward)

lemma safe_match_copy_forward:
  "safe_match_copy cap out off n ip = Next f ip' out' \<Longrightarrow> ip' = ip"
  by (auto simp: safe_match_copy_def split: if_splits)

lemma copy_match_stage_forward:
  "copy_match_stage src cap out off ml ip = Next f ip' out' \<Longrightarrow> ip \<le> ip'"
  by (auto simp: copy_match_stage_def split: if_splits option.splits
      dest!: safe_match_copy_forward read_variable_length_forward)

lemma safe_literal_copy_forward:
  "safe_literal_copy src cap out token lit ip = Next f ip' out' \<Longrightarrow> ip < ip'"
  by (auto simp: safe_literal_copy_def split: if_splits dest!: copy_match_stage_forward)

lemma safe_sequence_forward:
  "safe_sequence src cap ip out = Next f ip' out' \<Longrightarrow> ip < ip'"
  by (auto simp: safe_sequence_def Let_def split: if_splits option.splits
      dest!: copy_match_stage_forward safe_literal_copy_forward read_variable_length_forward)

lemma fast_match_forward:
  "fast_match src cap out ml ip = Next f ip' out' \<Longrightarrow> ip < ip'"
  by (auto simp: fast_match_def Let_def split: if_splits option.splits
      dest!: safe_match_copy_forward read_variable_length_forward)

lemma fast_sequence_forward:
  "fast_sequence src cap ip out = Next f ip' out' \<Longrightarrow> ip < ip'"
  by (auto simp: fast_sequence_def Let_def split: if_splits option.splits
      dest!: fast_match_forward safe_literal_copy_forward read_variable_length_forward)

lemma lz4_sequence_forward:
  "lz4_sequence fast src cap ip out = Next f ip' out' \<Longrightarrow> ip < ip'"
  by (auto simp: lz4_sequence_def split: if_splits
      dest: fast_sequence_forward safe_sequence_forward)

text \<open>
  Every sequence that is followed by another one leaves at least one byte of input for
  the next token.
\<close>

lemma rvl_loop_limit: "rvl_loop src k ip acc = Some (a, ip') \<Longrightarrow> ip' + k \<le> length src"
proof (induction src k ip acc rule: rvl_loop.induct)
  case (1 src k ip acc)
  from "1.prems" have u:
    "(if length src \<le> ip then None
      else if length src < Suc ip + k then None
      else if unat (src ! ip) = 255 then rvl_loop src k (Suc ip) (acc + unat (src ! ip))
      else Some (acc + unat (src ! ip), Suc ip)) = Some (a, ip')"
    by (subst (asm) rvl_loop.simps) (auto simp: Let_def split: if_splits)
  show ?case
  proof (cases "unat (src ! ip) = 255")
    case True
    with u have r: "rvl_loop src k (Suc ip) (acc + unat (src ! ip)) = Some (a, ip')"
      and c: "\<not> length src \<le> ip" "\<not> length src < Suc ip + k"
      by (auto split: if_splits)
    from "1.IH" [OF c(1) refl c(2) True r] show ?thesis by simp
  next
    case False
    with u show ?thesis by (auto split: if_splits)
  qed
qed

lemma read_variable_length_limit:
  "read_variable_length src k c ip = Some (a, ip') \<Longrightarrow> ip' + k \<le> length src"
  by (auto simp: read_variable_length_def split: if_splits dest: rvl_loop_limit)

lemma copy_match_stage_in_bounds:
  "copy_match_stage src cap out off ml ip = Next f ip' out' \<Longrightarrow> ip < length src \<Longrightarrow> ip' < length src"
  by (auto simp: copy_match_stage_def split: if_splits option.splits
      dest!: safe_match_copy_forward read_variable_length_limit)

lemma safe_literal_copy_in_bounds:
  "safe_literal_copy src cap out token lit ip = Next f ip' out' \<Longrightarrow> ip' < length src"
  by (auto simp: safe_literal_copy_def split: if_splits dest!: copy_match_stage_in_bounds)

lemma safe_sequence_in_bounds:
  "safe_sequence src cap ip out = Next f ip' out' \<Longrightarrow> ip' < length src"
proof -
  have "unat (src ! ip) < 2 ^ LENGTH(8)" by (rule unsigned_less)
  then have d: "unat (src ! ip) div 16 \<le> 15" by simp
  assume "safe_sequence src cap ip out = Next f ip' out'"
  then show ?thesis using d
    by (auto simp: safe_sequence_def Let_def split: if_splits option.splits
      dest!: copy_match_stage_in_bounds safe_literal_copy_in_bounds read_variable_length_limit)
qed

lemma fast_match_in_bounds:
  "fast_match src cap out ml ip = Next f ip' out' \<Longrightarrow> ip + 2 < length src \<Longrightarrow> ip' < length src"
  by (auto simp: fast_match_def Let_def split: if_splits option.splits
      dest!: safe_match_copy_forward read_variable_length_limit)

lemma fast_sequence_in_bounds:
  "fast_sequence src cap ip out = Next f ip' out' \<Longrightarrow> ip' < length src"
proof -
  have "unat (src ! ip) < 2 ^ LENGTH(8)" by (rule unsigned_less)
  then have d: "unat (src ! ip) div 16 \<le> 15" by simp
  assume "fast_sequence src cap ip out = Next f ip' out'"
  then show ?thesis using d
    by (auto simp: fast_sequence_def Let_def split: if_splits option.splits
      dest!: fast_match_in_bounds safe_literal_copy_in_bounds read_variable_length_limit)
qed

lemma lz4_sequence_in_bounds:
  "lz4_sequence fast src cap ip out = Next f ip' out' \<Longrightarrow> ip' < length src"
  by (auto simp: lz4_sequence_def split: if_splits
      dest: fast_sequence_in_bounds safe_sequence_in_bounds)

text \<open>
  The two loops: sequences are decoded until one of them ends the block or fails. The
  first test is never met (the input is not empty at the start, and the token of every
  further sequence lies within it): it only makes the recursion total.
\<close>

function lz4_loop :: "bool \<Rightarrow> bytes \<Rightarrow> nat \<Rightarrow> nat \<Rightarrow> bytes \<Rightarrow> bytes option" where
  "lz4_loop fast src cap ip out =
    (if length src \<le> ip then None
     else
       (case lz4_sequence fast src cap ip out of
          Fail \<Rightarrow> None
        | Done b \<Rightarrow> Some b
        | Next fast' ip' out' \<Rightarrow> lz4_loop fast' src cap ip' out'))"
  by pat_completeness auto
termination
proof (relation "measure (\<lambda>(fast, src, cap, ip, out). length src - ip)")
  show "wf (measure (\<lambda>(fast, src, cap, ip, out). length src - ip))" by simp
next
  fix fast src cap ip out x1 x2 x3
  assume "\<not> length src \<le> ip" "lz4_sequence fast src cap ip out = Next x1 x2 x3"
  then show "((x1, src, cap, x2, x3), fast, src, cap, ip, out)
      \<in> measure (\<lambda>(fast, src, cap, ip, out). length src - ip)"
    using lz4_sequence_forward [of fast src cap ip out x1 x2 x3] by simp
qed

declare lz4_loop.simps [simp del]

text \<open>
  \<^verbatim>\<open>LZ4_decompress_safe\<close> with its special cases (no output room, no input); the fast
  loop is entered when the destination has at least 64 bytes. \<open>None\<close> is its negative
  return code.
\<close>

definition lz4_decompress_safe :: "nat \<Rightarrow> bytes \<Rightarrow> bytes option" where
  "lz4_decompress_safe cap src =
    (if cap = 0 then (if src = [0] then Some [] else None)
     else if src = [] then None
     else lz4_loop (64 \<le> cap) src cap 0 [])"

text \<open>
  The Python binding, given \<^verbatim>\<open>uncompressed_size\<close>: the source is a bare block and a
  negative return code raises \<^verbatim>\<open>LZ4BlockError\<close>, here \<open>None\<close>, the only exception the
  caller catches.
\<close>

definition lz4_block_decompress :: "bytes \<Rightarrow> nat \<Rightarrow> bytes option" where
  "lz4_block_decompress src uncompressed_size = lz4_decompress_safe uncompressed_size src"

section \<open>The packet codec\<close>

text \<open>
  \<^verbatim>\<open>_pack_packet(ver, cmd, seq, opcode, payload)\<close>: the four \<^verbatim>\<open>to_bytes\<close> calls come
  first, in the order of the source, then the serialisation; the length field is the
  length of the serialised payload masked to 24 bits, in 4 bytes.
\<close>

definition pack_packet :: "int \<Rightarrow> int \<Rightarrow> int \<Rightarrow> int \<Rightarrow> pyval \<Rightarrow> error + bytes" where
  "pack_packet ver cmd seq opcode payload =
    (case to_bytes 1 ver of Inl e \<Rightarrow> Inl e | Inr ver_b \<Rightarrow>
    (case to_bytes 2 cmd of Inl e \<Rightarrow> Inl e | Inr cmd_b \<Rightarrow>
    (case to_bytes 1 seq of Inl e \<Rightarrow> Inl e | Inr seq_b \<Rightarrow>
    (case to_bytes 2 opcode of Inl e \<Rightarrow> Inl e | Inr opcode_b \<Rightarrow>
    (case packb payload of Inl e \<Rightarrow> Inl e | Inr payload_bytes \<Rightarrow>
    (case to_bytes 4 (int (length payload_bytes AND 0xFFFFFF)) of
       Inl e \<Rightarrow> Inl e
     | Inr payload_len_b \<Rightarrow>
         Inr (ver_b @ cmd_b @ seq_b @ opcode_b @ payload_len_b @ payload_bytes)))))))"

text \<open>
  \<^verbatim>\<open>_unpack_packet(data)\<close>: a non-empty payload is first given to the LZ4 decoder with
  room for 99999 bytes; when that fails the bytes are taken as they are. An empty payload
  is \<^verbatim>\<open>None\<close>. In \<open>unpack_packet_with\<close> the decoder is an argument, standing for
  \<^verbatim>\<open>lz4.block.decompress\<close>: what holds for every decoder holds for the library the
  code calls. \<open>unpack_packet\<close> is the function with the decoder of the section above.
\<close>

definition unpack_packet_with :: "(bytes \<Rightarrow> nat \<Rightarrow> bytes option) \<Rightarrow> bytes \<Rightarrow> error + pyval" where
  "unpack_packet_with decompress data =
    (let payload_len = from_bytes (py_slice 6 10 data) AND 0xFFFFFF;
         payload_bytes = py_slice 10 (10 + payload_len) data
     in if payload_bytes \<noteq> [] then
          unpackb (case decompress payload_bytes 99999 of
                     Some d \<Rightarrow> d
                   | None \<Rightarrow> payload_bytes)
        else Inr PNone)"

definition unpack_packet :: "bytes \<Rightarrow> error + pyval" where
  "unpack_packet data = unpack_packet_with lz4_block_decompress data"

section \<open>The connection\<close>

text \<open>
  An \<^verbatim>\<open>asyncio\<close> future is pending until it is given a result or an exception or is
  cancelled; \<^verbatim>\<open>done()\<close> is true of every state but the first.
\<close>

datatype fut_state = FPending | FResult pyval | FException error | FCancelled

text \<open>
  The read side of the socket is what its \<^verbatim>\<open>recv\<close> calls will meet, in order: a chunk
  of bytes or an exception. When the list is used up the peer has closed the socket and
  \<^verbatim>\<open>recv\<close> returns the empty string.
\<close>

datatype recv_event = Data bytes | RecvError

text \<open>What the loops leave behind: a line printed for an exception, a pause in seconds.\<close>

datatype trace_event = Printed error | Slept nat

text \<open>
  The fields of \<^verbatim>\<open>MiniSocketClient\<close> once \<^verbatim>\<open>connect()\<close> has run, so that the socket and
  the two tasks exist: \<open>seq_counter\<close> is \<^verbatim>\<open>_seq\<close>, \<open>pending\<close> is \<^verbatim>\<open>_pending\<close> (sequence
  number to future), \<open>futures\<close> holds the state of every future made by
  \<^verbatim>\<open>create_future()\<close> (a future is its index), \<open>rx\<close>, \<open>tx\<close>, \<open>tx_ok\<close> and \<open>sock_closed\<close>
  are the socket (\<open>tx\<close> the packets given to \<^verbatim>\<open>sendall\<close>, \<open>tx_ok\<close> whether the network
  accepts writes), and \<open>console\<close> is what was printed and slept. Of the two tasks the
  state keeps whether \<^verbatim>\<open>cancel()\<close> was called on them and, for the ping task, the future
  it is suspended on inside its call of \<^verbatim>\<open>send_msg\<close> (\<open>ping_waiter\<close>; \<open>None\<close> while the
  task sleeps or has ended).
\<close>

record client =
  is_connected :: bool
  seq_counter :: int
  pending :: "int \<rightharpoonup> nat"
  futures :: "fut_state list"
  sock_closed :: bool
  rx :: "recv_event list"
  tx :: "bytes list"
  tx_ok :: bool
  recv_task_cancelled :: bool
  ping_task_cancelled :: bool
  ping_interval :: nat
  ping_waiter :: "nat option"
  console :: "trace_event list"

text \<open>
  \<^verbatim>\<open>__init__\<close> with its default \<^verbatim>\<open>ping_interval\<close> followed by \<^verbatim>\<open>connect()\<close>, on a
  socket with the given future; neither loop has run yet.
\<close>

definition connect :: "recv_event list \<Rightarrow> bool \<Rightarrow> client" where
  "connect events writable =
    \<lparr> is_connected = True, seq_counter = 0, pending = Map.empty, futures = [],
      sock_closed = False, rx = events, tx = [], tx_ok = writable,
      recv_task_cancelled = False, ping_task_cancelled = False,
      ping_interval = 30, ping_waiter = None, console = [] \<rparr>"

text \<open>\<^verbatim>\<open>self._socket.sendall(packet)\<close>: an \<^verbatim>\<open>OSError\<close> on a closed or broken socket.\<close>

definition sendall :: "bytes \<Rightarrow> client \<Rightarrow> error + client" where
  "sendall packet s =
    (if sock_closed s \<or> \<not> tx_ok s then Inl OSError else Inr (s\<lparr>tx := tx s @ [packet]\<rparr>))"

text \<open>
  \<^verbatim>\<open>send_msg(opcode, payload)\<close> up to its last line: the result is the exception raised,
  or the future that \<^verbatim>\<open>return await fut\<close> then waits for. The counter is incremented
  before the packet is built, the future is stored under the new number before the
  packet is written, and an exception leaves behind what was done before it.
\<close>

definition send_msg :: "int \<Rightarrow> pyval \<Rightarrow> client \<Rightarrow> (error + nat) \<times> client" where
  "send_msg opcode payload s =
    (if \<not> is_connected s then (Inl (RuntimeError ''Socket not connected''), s)
     else
       let s1 = s\<lparr>seq_counter := seq_counter s + 1\<rparr>;
           seq = seq_counter s1
       in (case pack_packet 10 0 seq opcode payload of
             Inl e \<Rightarrow> (Inl e, s1)
           | Inr packet \<Rightarrow>
               let fut = length (futures s1);
                   s2 = s1\<lparr>futures := futures s1 @ [FPending],
                           pending := (pending s1)(seq \<mapsto> fut)\<rparr>
               in (case sendall packet s2 of
                     Inl e \<Rightarrow> (Inl e, s2)
                   | Inr s3 \<Rightarrow> (Inr fut, s3))))"

text \<open>
  \<^verbatim>\<open>await fut\<close>: \<open>None\<close> while the future is pending (the caller stays suspended),
  otherwise the value returned or the exception raised.
\<close>

definition await_fut :: "client \<Rightarrow> nat \<Rightarrow> (error + pyval) option" where
  "await_fut s fut =
    (if length (futures s) \<le> fut then None
     else (case futures s ! fut of
             FPending \<Rightarrow> None
           | FResult v \<Rightarrow> Some (Inr v)
           | FException e \<Rightarrow> Some (Inl e)
           | FCancelled \<Rightarrow> Some (Inl CancelledError)))"

text \<open>Several calls of \<^verbatim>\<open>send_msg\<close> one after the other, with the outcome of each.\<close>

fun send_msgs :: "(int \<times> pyval) list \<Rightarrow> client \<Rightarrow> (error + nat) list \<times> client" where
  "send_msgs [] s = ([], s)"
| "send_msgs ((opcode, payload) # calls) s =
    (case send_msg opcode payload s of
       (r, s') \<Rightarrow> (case send_msgs calls s' of (rs, s'') \<Rightarrow> (r # rs, s'')))"

text \<open>\<^verbatim>\<open>self._socket.recv(k)\<close> for \<open>k > 0\<close>: at most \<open>k\<close> bytes of the next chunk.\<close>

fun recv :: "nat \<Rightarrow> recv_event list \<Rightarrow> (error + bytes) \<times> recv_event list" where
  "recv k [] = (Inr [], [])"
| "recv k (RecvError # evs) = (Inl OSError, evs)"
| "recv k (Data bs # evs) =
    (if length bs \<le> k then (Inr bs, evs) else (Inr (take k bs), Data (drop k bs) # evs))"

text \<open>
  \<^verbatim>\<open>_recv_exactly(n)\<close>, with its buffer: it stops early, with what it has, on an empty
  chunk.
\<close>

function recv_exactly_loop ::
  "nat \<Rightarrow> bytes \<Rightarrow> recv_event list \<Rightarrow> (error + bytes) \<times> recv_event list" where
  "recv_exactly_loop n buf evs =
    (if length buf < n then
       (case recv (n - length buf) evs of
          (Inl e, evs') \<Rightarrow> (Inl e, evs')
        | (Inr chunk, evs') \<Rightarrow>
            if chunk = [] then (Inr buf, evs') else recv_exactly_loop n (buf @ chunk) evs')
     else (Inr buf, evs))"
  by pat_completeness auto
termination
  by (relation "measure (\<lambda>(n, buf, evs). n - length buf)")
    (auto simp flip: length_greater_0_conv)

definition recv_exactly :: "nat \<Rightarrow> recv_event list \<Rightarrow> (error + bytes) \<times> recv_event list" where
  "recv_exactly n evs = recv_exactly_loop n [] evs"

text \<open>\<^verbatim>\<open>fut.set_result(payload)\<close>, guarded by \<^verbatim>\<open>not fut.done()\<close>.\<close>

definition set_result :: "nat \<Rightarrow> pyval \<Rightarrow> fut_state list \<Rightarrow> fut_state list" where
  "set_result fut payload fs =
    (if fut < length fs \<and> fs ! fut = FPending then fs[fut := FResult payload] else fs)"

text \<open>
  One pass through the body of the \<^verbatim>\<open>while\<close> of \<^verbatim>\<open>_recv_loop\<close>: it ends in the
  \<^verbatim>\<open>break\<close> of the empty header, at the end of the \<^verbatim>\<open>try\<close> block, or in the
  \<^verbatim>\<open>except\<close> clause with the exception caught.
\<close>

datatype outcome = Stopped | Continue | Raised error

definition recv_iteration :: "client \<Rightarrow> outcome \<times> client" where
  "recv_iteration s =
    (case recv_exactly 10 (rx s) of
       (Inl e, evs1) \<Rightarrow> (Raised e, s\<lparr>rx := evs1\<rparr>)
     | (Inr header, evs1) \<Rightarrow>
         if header = [] then (Stopped, s\<lparr>rx := evs1, is_connected := False\<rparr>)
         else
           let payload_len = from_bytes (py_slice 6 10 header) AND 0xFFFFFF in
           (case recv_exactly payload_len evs1 of
              (Inl e, evs2) \<Rightarrow> (Raised e, s\<lparr>rx := evs2\<rparr>)
            | (Inr payload_bytes, evs2) \<Rightarrow>
                (case unpack_packet (header @ payload_bytes) of
                   Inl e \<Rightarrow> (Raised e, s\<lparr>rx := evs2\<rparr>)
                 | Inr payload \<Rightarrow>
                     let seq = int (from_bytes (py_slice 3 4 header)) in
                     (case pending s seq of
                        None \<Rightarrow> (Continue, s\<lparr>rx := evs2\<rparr>)
                      | Some fut \<Rightarrow>
                          (Continue,
                           s\<lparr>rx := evs2, pending := (pending s)(seq := None),
                             futures := set_result fut payload (futures s)\<rparr>)))))"

text \<open>What is left to read: the bytes still to come and the number of events.\<close>

fun weight :: "recv_event list \<Rightarrow> nat" where
  "weight [] = 0"
| "weight (RecvError # evs) = Suc (weight evs)"
| "weight (Data bs # evs) = Suc (length bs + weight evs)"

lemma recv_weight:
  "recv k evs = (r, evs') \<Longrightarrow> 0 < k \<Longrightarrow>
     weight evs' \<le> weight evs \<and> (r \<noteq> Inr [] \<longrightarrow> weight evs' < weight evs)"
  by (induction k evs rule: recv.induct) (auto split: if_splits)

lemma recv_exactly_loop_weight:
  "recv_exactly_loop n buf evs = (r, evs') \<Longrightarrow>
     weight evs' \<le> weight evs
     \<and> ((\<exists>e. r = Inl e) \<or> (\<exists>b. r = Inr b \<and> length buf < length b) \<longrightarrow> weight evs' < weight evs)"
proof (induction n buf evs arbitrary: r evs' rule: recv_exactly_loop.induct)
  case (1 n buf evs)
  show ?case
  proof (cases "length buf < n")
    case False
    with "1.prems" show ?thesis by auto
  next
    case True
    obtain c evs1 where rc: "recv (n - length buf) evs = (c, evs1)" by (cases "recv (n - length buf) evs")
    from True have pos: "0 < n - length buf" by simp
    note w = recv_weight [OF rc pos]
    show ?thesis
    proof (cases c)
      case (Inl e)
      with "1.prems" True rc w show ?thesis by auto
    next
      case (Inr chunk)
      show ?thesis
      proof (cases "chunk = []")
        case True
        with "1.prems" \<open>length buf < n\<close> rc Inr w show ?thesis by auto
      next
        case False
        with "1.prems" \<open>length buf < n\<close> rc Inr
        have rec: "recv_exactly_loop n (buf @ chunk) evs1 = (r, evs')" by simp
        from "1.IH" [OF \<open>length buf < n\<close> rc [symmetric] Inr False rec]
        have "weight evs' \<le> weight evs1" by simp
        moreover from w Inr False have "weight evs1 < weight evs" by simp
        ultimately show ?thesis by simp
      qed
    qed
  qed
qed

lemma recv_exactly_weight:
  "recv_exactly n evs = (r, evs') \<Longrightarrow>
     weight evs' \<le> weight evs \<and> (r \<noteq> Inr [] \<longrightarrow> weight evs' < weight evs)"
  using recv_exactly_loop_weight [of n "[]" evs r evs']
  by (cases r) (auto simp: recv_exactly_def)

lemma recv_iteration_weight:
  "recv_iteration s = (out, s') \<Longrightarrow> out \<noteq> Stopped \<Longrightarrow> weight (rx s') < weight (rx s)"
proof -
  assume it: "recv_iteration s = (out, s')" and ns: "out \<noteq> Stopped"
  obtain r1 evs1 where h: "recv_exactly 10 (rx s) = (r1, evs1)" by (cases "recv_exactly 10 (rx s)")
  note w1 = recv_exactly_weight [OF h]
  show ?thesis
  proof (cases r1)
    case (Inl e)
    with it h w1 show ?thesis by (auto simp: recv_iteration_def)
  next
    case (Inr header)
    show ?thesis
    proof (cases "header = []")
      case True
      with it h Inr ns show ?thesis by (auto simp: recv_iteration_def)
    next
      case False
      with w1 Inr have lt: "weight evs1 < weight (rx s)" by simp
      obtain r2 evs2 where p: "recv_exactly (from_bytes (py_slice 6 10 header) AND 0xFFFFFF) evs1 = (r2, evs2)"
        by (cases "recv_exactly (from_bytes (py_slice 6 10 header) AND 0xFFFFFF) evs1")
      from recv_exactly_weight [OF p] have le: "weight evs2 \<le> weight evs1" by simp
      have "rx s' = evs2"
        using it h Inr False p
        by (auto simp: recv_iteration_def Let_def split: sum.splits option.splits)
      with lt le show ?thesis by simp
    qed
  qed
qed

text \<open>
  \<^verbatim>\<open>_recv_loop\<close>: the \<^verbatim>\<open>while self.is_connected\<close> around the iteration; the \<^verbatim>\<open>except\<close>
  clause prints the exception and sleeps one second before the next pass.
\<close>

function recv_loop :: "client \<Rightarrow> client" where
  "recv_loop s =
    (if is_connected s then
       (case recv_iteration s of
          (Stopped, s') \<Rightarrow> s'
        | (Continue, s') \<Rightarrow> recv_loop s'
        | (Raised e, s') \<Rightarrow> recv_loop (s'\<lparr>console := console s' @ [Printed e, Slept 1]\<rparr>))
     else s)"
  by pat_completeness auto
termination
proof (relation "measure (\<lambda>s. weight (rx s))")
  show "wf (measure (\<lambda>s. weight (rx s)))" by simp
next
  fix s x1 x2
  assume "is_connected s" "(x1, x2) = recv_iteration s" "x1 = Continue"
  then show "(x2, s) \<in> measure (\<lambda>s. weight (rx s))"
    using recv_iteration_weight [of s x1 x2] by simp
next
  fix s x1 x2 e
  assume "is_connected s" "(x1, x2) = recv_iteration s" "x1 = Raised e"
  then show "(x2\<lparr>console := console x2 @ [Printed e, Slept 1]\<rparr>, s) \<in> measure (\<lambda>s. weight (rx s))"
    using recv_iteration_weight [of s x1 x2] by simp
qed



text \<open>\<^verbatim>\<open>fut.cancel()\<close>: a future that is done is left as it is.\<close>

definition cancel_future :: "nat \<Rightarrow> fut_state list \<Rightarrow> fut_state list" where
  "cancel_future fut fs =
    (if fut < length fs \<and> fs ! fut = FPending then fs[fut := FCancelled] else fs)"

text \<open>
  \<^verbatim>\<open>close()\<close>: the flag is cleared, the socket is shut down and closed (exceptions from
  either are swallowed), and \<^verbatim>\<open>cancel()\<close> is called on both tasks. Cancelling a task
  cancels the future the task is suspended on: for the ping task that is the future of
  its own \<^verbatim>\<open>send_msg\<close>, when it is inside that call (the receive task waits for the
  executor only). The table \<^verbatim>\<open>_pending\<close> and every other future are not touched.
\<close>

definition close :: "client \<Rightarrow> client" where
  "close s =
    s\<lparr>is_connected := False, sock_closed := True,
      recv_task_cancelled := True, ping_task_cancelled := True,
      futures := (case ping_waiter s of
                    None \<Rightarrow> futures s
                  | Some fut \<Rightarrow> cancel_future fut (futures s))\<rparr>"


text \<open>
  The reply of the peer in the example of a request answered: version 10, command 0,
  sequence 1, opcode 6 and the payload \<^verbatim>\<open>{"payload": {"ok": true}}\<close>, serialised and not
  compressed.
\<close>

definition reply_frame :: bytes where
  "reply_frame =
    [10, 0, 0, 1, 0, 6, 0, 0, 0, 14,
     0x81, 0xa7, 0x70, 0x61, 0x79, 0x6c, 0x6f, 0x61, 0x64, 0x81, 0xa2, 0x6f, 0x6b, 0xc3]"

definition reply_value :: pyval where
  "reply_value =
    PDict [(PStr [0x70, 0x61, 0x79, 0x6c, 0x6f, 0x61, 0x64], PDict [(PStr [0x6f, 0x6b], PBool True)])]"

text \<open>
  The request with which the program asks for a code,
  \<^verbatim>\<open>{"type": "START_AUTH", "phone": "+70000000000"}\<close>, and its serialisation.
\<close>

definition start_auth :: pyval where
  "start_auth =
    PDict [(PStr [0x74, 0x79, 0x70, 0x65],
            PStr [0x53, 0x54, 0x41, 0x52, 0x54, 0x5f, 0x41, 0x55, 0x54, 0x48]),
           (PStr [0x70, 0x68, 0x6f, 0x6e, 0x65],
            PStr [0x2b, 0x37, 0x30, 0x30, 0x30, 0x30, 0x30, 0x30, 0x30, 0x30, 0x30, 0x30])]"

definition start_auth_bytes :: bytes where
  "start_auth_bytes =
    [0x82, 0xa4, 0x74, 0x79, 0x70, 0x65,
     0xaa, 0x53, 0x54, 0x41, 0x52, 0x54, 0x5f, 0x41, 0x55, 0x54, 0x48,
     0xa5, 0x70, 0x68, 0x6f, 0x6e, 0x65,
     0xac, 0x2b, 0x37, 0x30, 0x30, 0x30, 0x30, 0x30, 0x30, 0x30, 0x30, 0x30, 0x30]"

text \<open>
  A request has been sent and the stream brings a frame whose one payload byte \<open>0xc1\<close>
  is no msgpack object, then the answer to the request, then its end.
\<close>

definition two_frames :: client where
  "two_frames =
    snd (send_msg 6 (PDict [])
          (connect [Data [10, 0, 0, 1, 0, 6, 0, 0, 0, 1, 0xc1], Data reply_frame] True))"

section \<open>Properties of the codec\<close>

lemma length_be_bytes: "length (be_bytes k n) = k"
  by (induction k arbitrary: n) auto

lemma from_bytes_snoc: "from_bytes (bs @ [b]) = from_bytes bs * 256 + unat b"
  by (simp add: from_bytes_def)

lemma from_bytes_be_bytes: "from_bytes (be_bytes k n) = n mod 256 ^ k"
proof (induction k arbitrary: n)
  case 0
  show ?case by (simp add: from_bytes_def)
next
  case (Suc k)
  have "unat (of_nat n :: byte) = n mod 256"
    by (simp add: unat_of_nat)
  then have "from_bytes (be_bytes (Suc k) n) = (n div 256) mod 256 ^ k * 256 + n mod 256"
    by (simp add: from_bytes_snoc Suc.IH)
  also have "\<dots> = n mod 256 ^ Suc k"
    by (simp add: mod_mult2_eq mult.commute)
  finally show ?case .
qed

lemma mask24: "(n::nat) AND 0xFFFFFF = n mod 16777216"
proof -
  have "(0xFFFFFF::nat) = mask 24" by (simp add: mask_eq_exp_minus_1)
  then have "n AND 0xFFFFFF = take_bit 24 n" by (simp only: take_bit_eq_mask)
  then show ?thesis by (simp add: take_bit_eq_mod)
qed

lemma be_bytes_1: "be_bytes 1 n = [of_nat n]"
  by simp

lemma be_bytes_2: "be_bytes 2 n = [of_nat (n div 256), of_nat n]"
proof -
  have "(2::nat) = Suc (Suc 0)" by simp
  then have "be_bytes 2 n = be_bytes (Suc (Suc 0)) n" by (simp only:)
  then show ?thesis by simp
qed

lemma be_bytes_4:
  "be_bytes 4 n = [of_nat (n div 256 div 256 div 256), of_nat (n div 256 div 256), of_nat (n div 256), of_nat n]"
proof -
  have "(4::nat) = Suc (Suc (Suc (Suc 0)))" by simp
  then have "be_bytes 4 n = be_bytes (Suc (Suc (Suc (Suc 0)))) n" by (simp only:)
  then show ?thesis by simp
qed

lemma to_bytes_ok: "0 \<le> x \<Longrightarrow> x < 256 ^ k \<Longrightarrow> to_bytes k x = Inr (be_bytes k (nat x))"
  by (simp add: to_bytes_def)

lemma pack_packet_ok:
  assumes "0 \<le> ver" "ver < 256" "0 \<le> cmd" "cmd < 65536" "0 \<le> seq" "seq < 256"
    "0 \<le> opcode" "opcode < 65536" and "packb P = Inr b"
  shows "pack_packet ver cmd seq opcode P =
    Inr (be_bytes 1 (nat ver) @ be_bytes 2 (nat cmd) @ be_bytes 1 (nat seq)
         @ be_bytes 2 (nat opcode) @ be_bytes 4 (length b mod 16777216) @ b)"
proof -
  have l: "to_bytes 4 (int (length b AND 0xFFFFFF)) = Inr (be_bytes 4 (length b mod 16777216))"
  proof -
    have "int (length b mod 16777216) < 256 ^ 4" by simp
    then show ?thesis by (simp only: mask24 to_bytes_ok nat_int of_nat_0_le_iff)
  qed
  have v: "to_bytes 1 ver = Inr (be_bytes 1 (nat ver))" using assms(1,2) by (simp add: to_bytes_def)
  have c: "to_bytes 2 cmd = Inr (be_bytes 2 (nat cmd))" using assms(3,4) by (simp add: to_bytes_def)
  have s: "to_bytes 1 seq = Inr (be_bytes 1 (nat seq))" using assms(5,6) by (simp add: to_bytes_def)
  have p: "to_bytes 2 opcode = Inr (be_bytes 2 (nat opcode))" using assms(7,8) by (simp add: to_bytes_def)
  show ?thesis unfolding pack_packet_def by (simp only: l v c s p assms(9) sum.case)
qed

lemma pack_obj_pos:
  "0 < n \<Longrightarrow> pack_obj n PNone = Inr [0xc0]"
  "0 < n \<Longrightarrow> pack_obj n (PBool b) = Inr [if b then 0xc3 else 0xc2]"
  "0 < n \<Longrightarrow> pack_obj n (PInt d) = pack_int d"
  "0 < n \<Longrightarrow> pack_obj n (PStr s) = bind_bytes (pack_str_head (length s)) (Inr s)"
  "0 < n \<Longrightarrow> pack_obj n (PBytes s) = bind_bytes (pack_bin_head (length s)) (Inr s)"
  "0 < n \<Longrightarrow> pack_obj n (PList xs) = bind_bytes (pack_array_head (length xs)) (pack_items (n - 1) xs)"
  "0 < n \<Longrightarrow> pack_obj n (PDict kvs) = bind_bytes (pack_map_head (length kvs)) (pack_pairs (n - 1) kvs)"
  by (cases n; simp)+

lemma packb_empty_dict: "packb (PDict []) = Inr [0x80]"
  by (simp add: packb_def pack_obj_pos pack_map_head_def bind_bytes_def)

lemma packb_big_bytes:
  "packb (PBytes (replicate 16777216 0)) = Inr ([0xc6, 1, 0, 0, 0] @ replicate 16777216 0)"
  by (simp add: packb_def pack_obj_pos pack_bin_head_def bind_bytes_def be_bytes_4)

lemma unpack_packet_payload:
  "unpack_packet d =
    (let p = py_slice 10 (10 + (from_bytes (py_slice 6 10 d) AND 0xFFFFFF)) d
     in if p \<noteq> [] then
          unpackb (case lz4_block_decompress p 99999 of Some x \<Rightarrow> x | None \<Rightarrow> p)
        else Inr PNone)"
  by (simp add: unpack_packet_def unpack_packet_with_def Let_def)

text \<open>
  C10. Decoding depends only on the length field masked to 24 bits and on the payload
  bytes it declares: two frames that agree on \<^verbatim>\<open>data[6:10]\<close> masked to 24 bits and on
  \<^verbatim>\<open>data[10:10+payload_len]\<close> decode to the same result (the same value or the same
  exception). The version, command, sequence and opcode bytes, the top byte of the length
  field and any bytes after the declared payload play no part.
\<close>

theorem unpack_packet_depends_only:
  assumes "from_bytes (py_slice 6 10 d1) AND 0xFFFFFF = from_bytes (py_slice 6 10 d2) AND 0xFFFFFF"
    and "py_slice 10 (10 + (from_bytes (py_slice 6 10 d1) AND 0xFFFFFF)) d1
       = py_slice 10 (10 + (from_bytes (py_slice 6 10 d2) AND 0xFFFFFF)) d2"
  shows "unpack_packet d1 = unpack_packet d2"
proof -
  have "unpack_packet d1 =
    (let p = py_slice 10 (10 + (from_bytes (py_slice 6 10 d1) AND 0xFFFFFF)) d1
     in if p \<noteq> [] then
          unpackb (case lz4_block_decompress p 99999 of Some x \<Rightarrow> x | None \<Rightarrow> p)
        else Inr PNone)"
    by (rule unpack_packet_payload)
  also have "\<dots> =
    (let p = py_slice 10 (10 + (from_bytes (py_slice 6 10 d2) AND 0xFFFFFF)) d2
     in if p \<noteq> [] then
          unpackb (case lz4_block_decompress p 99999 of Some x \<Rightarrow> x | None \<Rightarrow> p)
        else Inr PNone)"
    by (simp only: assms(2))
  also have "\<dots> = unpack_packet d2"
    by (rule unpack_packet_payload [symmetric])
  finally show ?thesis .
qed

text \<open>
  The two frames of the witness differ in all six leading header bytes, in the top byte of
  the length field and in two trailing bytes; both declare a one-byte payload \<open>0x80\<close>.
\<close>

theorem unpack_packet_depends_only_witness:
  "from_bytes (py_slice 6 10 [10, 0, 0, 1, 0, 6, 0, 0, 0, 1, 0x80]) AND 0xFFFFFF
     = from_bytes (py_slice 6 10 [9, 8, 7, 200, 5, 4, 0xFF, 0, 0, 1, 0x80, 7, 7]) AND 0xFFFFFF
   \<and> py_slice 10 (10 + (from_bytes (py_slice 6 10 [10, 0, 0, 1, 0, 6, 0, 0, 0, 1, 0x80]) AND 0xFFFFFF))
        [10, 0, 0, 1, 0, 6, 0, 0, 0, 1, 0x80 :: byte]
     = py_slice 10 (10 + (from_bytes (py_slice 6 10 [9, 8, 7, 200, 5, 4, 0xFF, 0, 0, 1, 0x80, 7, 7]) AND 0xFFFFFF))
        [9, 8, 7, 200, 5, 4, 0xFF, 0, 0, 1, 0x80, 7, 7]
   \<and> unpack_packet [10, 0, 0, 1, 0, 6, 0, 0, 0, 1, 0x80]
     = unpack_packet [9, 8, 7, 200, 5, 4, 0xFF, 0, 0, 1, 0x80, 7, 7]"
proof -
  have h1: "from_bytes (py_slice 6 10 [10, 0, 0, 1, 0, 6, 0, 0, 0, 1, 0x80]) AND 0xFFFFFF
     = from_bytes (py_slice 6 10 [9, 8, 7, 200, 5, 4, 0xFF, 0, 0, 1, 0x80, 7, 7]) AND 0xFFFFFF"
    by (simp add: from_bytes_def py_slice_def)
  have h2: "py_slice 10 (10 + (from_bytes (py_slice 6 10 [10, 0, 0, 1, 0, 6, 0, 0, 0, 1, 0x80]) AND 0xFFFFFF))
        [10, 0, 0, 1, 0, 6, 0, 0, 0, 1, 0x80 :: byte]
     = py_slice 10 (10 + (from_bytes (py_slice 6 10 [9, 8, 7, 200, 5, 4, 0xFF, 0, 0, 1, 0x80, 7, 7]) AND 0xFFFFFF))
        [9, 8, 7, 200, 5, 4, 0xFF, 0, 0, 1, 0x80, 7, 7]"
    by (simp add: from_bytes_def py_slice_def)
  from unpack_packet_depends_only [OF h1 h2] h1 h2 show ?thesis by blast
qed

text \<open>
  C6 (as the code has it). \<^verbatim>\<open>_pack_packet\<close> has no size check: whenever the four header
  fields are in range and the payload serialises to \<open>b\<close>, a frame is returned, of 10 header
  bytes followed by exactly \<open>b\<close>. Its length field is the length of \<open>b\<close> modulo \<open>2^24\<close>, so
  the field masked to 24 bits is the exact length of the payload section if and only if
  that length is below \<open>2^24\<close>.
\<close>

theorem pack_packet_length_field:
  assumes "0 \<le> ver" "ver < 256" "0 \<le> cmd" "cmd < 65536" "0 \<le> seq" "seq < 256"
    "0 \<le> opcode" "opcode < 65536" and "packb P = Inr b"
  shows "\<exists>frame. pack_packet ver cmd seq opcode P = Inr frame
      \<and> length frame = 10 + length b \<and> drop 10 frame = b
      \<and> from_bytes (py_slice 6 10 frame) = length b mod 16777216
      \<and> (from_bytes (py_slice 6 10 frame) AND 0xFFFFFF = length b \<longleftrightarrow> length b < 16777216)"
proof -
  let ?h = "be_bytes 1 (nat ver) @ be_bytes 2 (nat cmd) @ be_bytes 1 (nat seq) @ be_bytes 2 (nat opcode)"
  let ?f = "?h @ be_bytes 4 (length b mod 16777216) @ b"
  have h: "length ?h = 6" by (simp add: length_be_bytes)
  have e: "pack_packet ver cmd seq opcode P = Inr ?f"
    using pack_packet_ok [OF assms] by simp
  have sl: "py_slice 6 10 ?f = be_bytes 4 (length b mod 16777216)"
    using h by (simp add: py_slice_def length_be_bytes)
  have fb: "from_bytes (py_slice 6 10 ?f) = length b mod 16777216"
    by (subst sl) (simp add: from_bytes_be_bytes)
  have dr: "drop 10 ?f = b"
    using h by (simp add: length_be_bytes)
  have ln: "length ?f = 10 + length b"
    using h by (simp add: length_be_bytes)
  have mk: "(from_bytes (py_slice 6 10 ?f) AND 0xFFFFFF = length b) = (length b < 16777216)"
    by (simp only: fb mask24) (simp add: mod_eq_self_iff_div_eq_0 div_eq_0_iff)
  show ?thesis using e ln dr fb mk by blast
qed


theorem pack_packet_length_field_witness:
  "(0::int) \<le> 10 \<and> (10::int) < 256 \<and> (0::int) \<le> 0 \<and> (0::int) < 65536 \<and> (0::int) \<le> 1 \<and> (1::int) < 256
   \<and> (0::int) \<le> 6 \<and> (6::int) < 65536 \<and> packb (PDict []) = Inr [0x80]
   \<and> (\<exists>frame. pack_packet 10 0 1 6 (PDict []) = Inr frame
      \<and> length frame = 10 + length [0x80 :: byte] \<and> drop 10 frame = [0x80]
      \<and> from_bytes (py_slice 6 10 frame) = length [0x80 :: byte] mod 16777216
      \<and> (from_bytes (py_slice 6 10 frame) AND 0xFFFFFF = length [0x80 :: byte]
           \<longleftrightarrow> length [0x80 :: byte] < 16777216))"
  using pack_packet_length_field [of 10 0 1 6 "PDict []" "[0x80]", OF _ _ _ _ _ _ _ _ packb_empty_dict]
    packb_empty_dict
  by simp

text \<open>
  A payload of \<open>2^24\<close> zero bytes serialises to \<open>2^24 + 5\<close> bytes. It is not rejected: the
  frame carries all of them behind a length field of 5.
\<close>

theorem pack_packet_oversize_counterexample:
  "pack_packet 10 0 1 6 (PBytes (replicate 16777216 0))
     = Inr ([10, 0, 0, 1, 0, 6, 0, 0, 0, 5, 0xc6, 1, 0, 0, 0] @ replicate 16777216 0)
   \<and> from_bytes (py_slice 6 10 ([10, 0, 0, 1, 0, 6, 0, 0, 0, 5, 0xc6, 1, 0, 0, 0] @ replicate 16777216 0))
        AND 0xFFFFFF = 5
   \<and> length (drop 10 ([10, 0, 0, 1, 0, 6, 0, 0, 0, 5, 0xc6, 1, 0, 0, 0 :: byte] @ replicate 16777216 0))
        = 16777221"
proof -
  have "pack_packet 10 0 1 6 (PBytes (replicate 16777216 0))
     = Inr ([10, 0, 0, 1, 0, 6, 0, 0, 0, 5, 0xc6, 1, 0, 0, 0] @ replicate 16777216 0)"
    using pack_packet_ok [of 10 0 1 6, OF _ _ _ _ _ _ _ _ packb_big_bytes]
    by (simp add: be_bytes_4 be_bytes_2)
  moreover have "from_bytes (py_slice 6 10 ([10, 0, 0, 1, 0, 6, 0, 0, 0, 5, 0xc6, 1, 0, 0, 0] @ replicate 16777216 0))
        AND 0xFFFFFF = 5"
    by (simp add: py_slice_def from_bytes_def)
  moreover have "length (drop 10 ([10, 0, 0, 1, 0, 6, 0, 0, 0, 5, 0xc6, 1, 0, 0, 0 :: byte] @ replicate 16777216 0))
        = 16777221"
    by simp
  ultimately show ?thesis by blast
qed

section \<open>Properties of the connection\<close>

lemmas lz4_eval =
  lz4_block_decompress_def lz4_decompress_safe_def lz4_loop.simps lz4_sequence_def
  fast_sequence_def safe_sequence_def fast_match_def safe_literal_copy_def
  copy_match_stage_def safe_match_copy_def read_variable_length_def rvl_loop.simps
  readLE16_def literals_def copy_match_def Let_def
declare recv_loop.simps [simp del]
declare recv_exactly_loop.simps [simp del]


lemma send_msg_live_ok:
  assumes "is_connected s" "pack_packet 10 0 (seq_counter s + 1) opcode payload = Inr packet"
    "\<not> sock_closed s" "tx_ok s"
  shows "send_msg opcode payload s =
    (Inr (length (futures s)),
     s\<lparr>seq_counter := seq_counter s + 1, futures := futures s @ [FPending],
       pending := (pending s)(seq_counter s + 1 \<mapsto> length (futures s)),
       tx := tx s @ [packet]\<rparr>)"
  using assms by (simp add: send_msg_def sendall_def Let_def)

lemma pack_packet_seq_range:
  "pack_packet ver cmd seq opcode payload = Inr packet \<Longrightarrow> 0 \<le> seq \<and> seq < 256"
  by (auto simp: pack_packet_def to_bytes_def split: sum.splits if_splits)

lemma pack_packet_seq_overflow:
  "255 < seq \<Longrightarrow> pack_packet 10 0 seq opcode payload = Inl OverflowError"
  by (simp add: pack_packet_def to_bytes_def)

lemma send_msg_overflow:
  "is_connected s \<Longrightarrow> 255 \<le> seq_counter s \<Longrightarrow>
     send_msg opcode payload s = (Inl OverflowError, s\<lparr>seq_counter := seq_counter s + 1\<rparr>)"
  by (simp add: send_msg_def Let_def pack_packet_seq_overflow)

lemma send_msg_counter:
  "is_connected s \<Longrightarrow> seq_counter (snd (send_msg opcode payload s)) = seq_counter s + 1"
  by (simp add: send_msg_def sendall_def Let_def split: sum.splits)

lemma send_msg_connected:
  "is_connected (snd (send_msg opcode payload s)) = is_connected s"
  by (simp add: send_msg_def sendall_def Let_def split: sum.splits)

lemma send_msg_Inr:
  assumes "send_msg opcode payload s = (Inr f, s')"
  shows "\<exists>packet. is_connected s \<and> \<not> sock_closed s \<and> tx_ok s
     \<and> pack_packet 10 0 (seq_counter s + 1) opcode payload = Inr packet
     \<and> f = length (futures s)
     \<and> s' = s\<lparr>seq_counter := seq_counter s + 1, futures := futures s @ [FPending],
              pending := (pending s)(seq_counter s + 1 \<mapsto> length (futures s)),
              tx := tx s @ [packet]\<rparr>"
  using assms
  by (auto simp: send_msg_def sendall_def Let_def split: sum.splits if_splits)


lemma recv_loop_not_connected: "\<not> is_connected s \<Longrightarrow> recv_loop s = s"
  by (simp add: recv_loop.simps)

lemma ping_packet:
  "0 \<le> q \<Longrightarrow> q < 256 \<Longrightarrow>
   pack_packet 10 0 q 1 (PDict []) = Inr ([10, 0, 0, of_nat (nat q), 0, 1, 0, 0, 0, 1, 0x80])"
  using pack_packet_ok [of 10 0 q 1 "PDict []" "[0x80]"]
  by (simp add: packb_empty_dict be_bytes_2 be_bytes_4)

lemma hello_packet:
  "pack_packet 10 0 1 6 (PDict []) = Inr [10, 0, 0, 1, 0, 6, 0, 0, 0, 1, 0x80]"
  using pack_packet_ok [of 10 0 1 6 "PDict []" "[0x80]"]
  by (simp add: packb_empty_dict be_bytes_2 be_bytes_4)

lemma first_send:
  "send_msg 6 (PDict []) (connect evs True) =
    (Inr 0, (connect evs True)\<lparr>seq_counter := 1, futures := [FPending],
        pending := [1 \<mapsto> 0], tx := [[10, 0, 0, 1, 0, 6, 0, 0, 0, 1, 0x80]]\<rparr>)"
proof -
  have "send_msg 6 (PDict []) (connect evs True) =
    (Inr (length (futures (connect evs True))),
     (connect evs True)\<lparr>seq_counter := seq_counter (connect evs True) + 1,
       futures := futures (connect evs True) @ [FPending],
       pending := (pending (connect evs True))(seq_counter (connect evs True) + 1 \<mapsto> length (futures (connect evs True))),
       tx := tx (connect evs True) @ [[10, 0, 0, 1, 0, 6, 0, 0, 0, 1, 0x80]]\<rparr>)"
    by (rule send_msg_live_ok) (simp_all add: connect_def hello_packet)
  then show ?thesis by (simp add: connect_def)
qed






text \<open>
  C2 (as the code has it). \<^verbatim>\<open>_seq\<close> is an unbounded integer: every \<^verbatim>\<open>send_msg\<close> on a
  live connection adds one to it before the packet is built, and nothing ever reduces it.
  Whenever the call gets as far as awaiting its future, the number it was given lies in
  0..255, the future is registered under it, and it is byte 3 of the packet written.
\<close>

theorem send_msg_sequence_number:
  assumes "is_connected s"
  shows "seq_counter (snd (send_msg opcode payload s)) = seq_counter s + 1
    \<and> (\<forall>fut s'. send_msg opcode payload s = (Inr fut, s') \<longrightarrow>
          0 \<le> seq_counter s' \<and> seq_counter s' \<le> 255
          \<and> pending s' (seq_counter s') = Some fut
          \<and> tx s' \<noteq> []
          \<and> int (from_bytes (py_slice 3 4 (last (tx s')))) = seq_counter s')"
proof (intro conjI allI impI)
  show "seq_counter (snd (send_msg opcode payload s)) = seq_counter s + 1"
    using assms by (rule send_msg_counter)
next
  fix fut s'
  assume ok: "send_msg opcode payload s = (Inr fut, s')"
  from send_msg_Inr [OF ok] obtain packet where
    pk: "pack_packet 10 0 (seq_counter s + 1) opcode payload = Inr packet"
    and s': "s' = s\<lparr>seq_counter := seq_counter s + 1, futures := futures s @ [FPending],
              pending := (pending s)(seq_counter s + 1 \<mapsto> length (futures s)),
              tx := tx s @ [packet]\<rparr>"
    and f: "fut = length (futures s)" by blast
  from pack_packet_seq_range [OF pk] have rg: "0 \<le> seq_counter s + 1" "seq_counter s + 1 < 256" by simp_all
  from s' rg show "0 \<le> seq_counter s'" by simp
  from s' rg show "seq_counter s' \<le> 255" by simp
  from s' f show "pending s' (seq_counter s') = Some fut" by simp
  from s' show "tx s' \<noteq> []" by simp
  have "py_slice 3 4 packet = be_bytes 1 (nat (seq_counter s + 1))"
    using pk rg
    by (auto simp: pack_packet_def to_bytes_def py_slice_def be_bytes_2 split: sum.splits if_splits)
  then have "from_bytes (py_slice 3 4 packet) = nat (seq_counter s + 1) mod 256 ^ 1"
    by (simp only: from_bytes_be_bytes)
  with rg have "int (from_bytes (py_slice 3 4 packet)) = seq_counter s + 1" by simp
  with s' show "int (from_bytes (py_slice 3 4 (last (tx s')))) = seq_counter s'" by simp
qed


lemma send_msgs_append:
  "send_msgs (a @ b) s =
    (case send_msgs a s of (r1, s1) \<Rightarrow> (case send_msgs b s1 of (r2, s2) \<Rightarrow> (r1 @ r2, s2)))"
  by (induction a arbitrary: s) (auto split: prod.splits)

lemma send_pings_ok:
  assumes "is_connected s" "\<not> sock_closed s" "tx_ok s" "0 \<le> seq_counter s"
    "seq_counter s + int n \<le> 255"
  shows "\<exists>rs s'. send_msgs (replicate n (1, PDict [])) s = (rs, s') \<and> length rs = n
     \<and> seq_counter s' = seq_counter s + int n \<and> is_connected s' \<and> \<not> sock_closed s' \<and> tx_ok s'"
  using assms
proof (induction n arbitrary: s)
  case 0
  then show ?case by simp
next
  case (Suc n)
  let ?p = "[10, 0, 0, of_nat (nat (seq_counter s + 1)), 0, 1, 0, 0, 0, 1, 0x80] :: bytes"
  let ?s1 = "s\<lparr>seq_counter := seq_counter s + 1, futures := futures s @ [FPending],
       pending := (pending s)(seq_counter s + 1 \<mapsto> length (futures s)),
       tx := tx s @ [?p]\<rparr>"
  have pk: "pack_packet 10 0 (seq_counter s + 1) 1 (PDict []) = Inr ?p"
    using Suc.prems by (intro ping_packet) simp_all
  have one: "send_msg 1 (PDict []) s = (Inr (length (futures s)), ?s1)"
    using Suc.prems(1) pk Suc.prems(2,3) by (rule send_msg_live_ok)
  have "\<exists>rs s'. send_msgs (replicate n (1, PDict [])) ?s1 = (rs, s') \<and> length rs = n
     \<and> seq_counter s' = seq_counter ?s1 + int n \<and> is_connected s' \<and> \<not> sock_closed s' \<and> tx_ok s'"
    using Suc.prems by (intro Suc.IH) simp_all
  then obtain rs s' where r: "send_msgs (replicate n (1, PDict [])) ?s1 = (rs, s')" "length rs = n"
     "seq_counter s' = seq_counter ?s1 + int n" "is_connected s'" "\<not> sock_closed s'" "tx_ok s'"
    by blast
  have "send_msgs (replicate (Suc n) (1, PDict [])) s = (Inr (length (futures s)) # rs, s')"
    using one r(1) by simp
  with r show ?case by simp
qed

lemma after_255_pings:
  "\<exists>rs s'. send_msgs (replicate 255 (1, PDict [])) (connect [] True) = (rs, s')
     \<and> length rs = 255 \<and> seq_counter s' = 255 \<and> is_connected s'"
proof -
  have "\<exists>rs s'. send_msgs (replicate 255 (1, PDict [])) (connect [] True) = (rs, s') \<and> length rs = 255
     \<and> seq_counter s' = seq_counter (connect [] True) + int 255 \<and> is_connected s' \<and> \<not> sock_closed s' \<and> tx_ok s'"
    by (rule send_pings_ok) (simp_all add: connect_def)
  then obtain rs s' where r: "send_msgs (replicate 255 (1, PDict [])) (connect [] True) = (rs, s')"
    "length rs = 255" "seq_counter s' = seq_counter (connect [] True) + int 255" "is_connected s'"
    by blast
  from r(3) have "seq_counter s' = 255" by (simp add: connect_def)
  with r(1,2,4) show ?thesis by blast
qed

text \<open>
  257 keepalive requests on a fresh connection whose socket accepts every write: the
  256th and the 257th both raise \<^verbatim>\<open>OverflowError\<close> (from \<^verbatim>\<open>seq.to_bytes(1, "big")\<close>) and
  the counter stands at 257.
\<close>

theorem no_wraparound_counterexample:
  "fst (send_msgs (replicate 257 (1, PDict [])) (connect [] True)) ! 255 = Inl OverflowError
   \<and> fst (send_msgs (replicate 257 (1, PDict [])) (connect [] True)) ! 256 = Inl OverflowError
   \<and> seq_counter (snd (send_msgs (replicate 257 (1, PDict [])) (connect [] True))) = 257"
proof -
  let ?c = "(1, PDict []) :: int \<times> pyval"
  from after_255_pings obtain rs s where r: "send_msgs (replicate 255 ?c) (connect [] True) = (rs, s)"
    "length rs = 255" "seq_counter s = 255" "is_connected s" by blast
  have a: "send_msg 1 (PDict []) s = (Inl OverflowError, s\<lparr>seq_counter := 256\<rparr>)"
    using send_msg_overflow [OF r(4), of 1 "PDict []"] r(3) by simp
  have b: "send_msg 1 (PDict []) (s\<lparr>seq_counter := 256\<rparr>)
      = (Inl OverflowError, s\<lparr>seq_counter := 257\<rparr>)"
    using send_msg_overflow [of "s\<lparr>seq_counter := 256\<rparr>" 1 "PDict []"] r(4) by simp
  have two: "send_msgs [?c, ?c] s = ([Inl OverflowError, Inl OverflowError], s\<lparr>seq_counter := 257\<rparr>)"
    by (simp add: a b)
  have rep: "replicate 257 ?c = replicate 255 ?c @ [?c, ?c]"
  proof -
    have e: "(257::nat) = 255 + 2" by simp
    have t: "replicate 2 ?c = [?c, ?c]" unfolding numeral_2_eq_2 by (simp only: replicate.simps)
    have "replicate (255 + 2) ?c = replicate 255 ?c @ replicate 2 ?c" by (rule replicate_add)
    then show ?thesis by (simp only: t flip: e)
  qed
  have all: "send_msgs (replicate 257 ?c) (connect [] True)
      = (rs @ [Inl OverflowError, Inl OverflowError], s\<lparr>seq_counter := 257\<rparr>)"
    by (simp only: rep send_msgs_append r(1) two prod.case)
  from r(2) have "(rs @ [Inl OverflowError, Inl OverflowError]) ! 255 = Inl OverflowError"
    "(rs @ [Inl OverflowError, Inl OverflowError :: error + nat]) ! 256 = Inl OverflowError"
    by (simp_all add: nth_append)
  then show ?thesis by (simp only: all fst_conv snd_conv) simp
qed

theorem send_msg_sequence_number_witness:
  "is_connected (connect [] True)
   \<and> seq_counter (snd (send_msg 6 (PDict []) (connect [] True))) = seq_counter (connect [] True) + 1
   \<and> send_msg 6 (PDict []) (connect [] True)
       = (Inr 0, snd (send_msg 6 (PDict []) (connect [] True)))
   \<and> seq_counter (snd (send_msg 6 (PDict []) (connect [] True))) = 1
   \<and> pending (snd (send_msg 6 (PDict []) (connect [] True))) 1 = Some 0
   \<and> int (from_bytes (py_slice 3 4 (last (tx (snd (send_msg 6 (PDict []) (connect [] True))))))) = 1"
proof -
  have c: "is_connected (connect [] True)" by (simp add: connect_def)
  have e: "send_msg 6 (PDict []) (connect [] True)
       = (Inr 0, snd (send_msg 6 (PDict []) (connect [] True)))"
    by (simp add: first_send)
  have q: "seq_counter (snd (send_msg 6 (PDict []) (connect [] True))) = 1"
    by (simp add: first_send)
  from send_msg_sequence_number [OF c, of 6 "PDict []"] e q c show ?thesis
    by (metis (no_types, lifting))
qed

lemma recv_iteration_eof:
  "recv_exactly 10 (rx s) = (Inr [], evs) \<Longrightarrow>
     recv_iteration s = (Stopped, s\<lparr>rx := evs, is_connected := False\<rparr>)"
  by (simp add: recv_iteration_def)

lemma recv_iteration_read_error:
  "recv_exactly 10 (rx s) = (Inl e, evs) \<Longrightarrow> recv_iteration s = (Raised e, s\<lparr>rx := evs\<rparr>)"
  by (simp add: recv_iteration_def)

lemma recv_iteration_decode_error:
  "recv_exactly 10 (rx s) = (Inr header, evs1) \<Longrightarrow> header \<noteq> [] \<Longrightarrow>
   recv_exactly (from_bytes (py_slice 6 10 header) AND 0xFFFFFF) evs1 = (Inr payload_bytes, evs2) \<Longrightarrow>
   unpack_packet (header @ payload_bytes) = Inl e \<Longrightarrow>
     recv_iteration s = (Raised e, s\<lparr>rx := evs2\<rparr>)"
  by (simp add: recv_iteration_def Let_def)

lemma recv_iteration_resolves:
  "recv_exactly 10 (rx s) = (Inr header, evs1) \<Longrightarrow> header \<noteq> [] \<Longrightarrow>
   recv_exactly (from_bytes (py_slice 6 10 header) AND 0xFFFFFF) evs1 = (Inr payload_bytes, evs2) \<Longrightarrow>
   unpack_packet (header @ payload_bytes) = Inr v \<Longrightarrow>
   pending s (int (from_bytes (py_slice 3 4 header))) = Some fut \<Longrightarrow>
     recv_iteration s =
       (Continue, s\<lparr>rx := evs2,
                    pending := (pending s)(int (from_bytes (py_slice 3 4 header)) := None),
                    futures := set_result fut v (futures s)\<rparr>)"
  by (simp add: recv_iteration_def Let_def)

lemma await_set_result:
  "fut < length fs \<Longrightarrow> fs ! fut = FPending \<Longrightarrow>
     await_fut (s\<lparr>futures := set_result fut v fs\<rparr>) fut = Some (Inr v)"
  by (simp add: await_fut_def set_result_def)

lemma recv_iteration_Raised:
  assumes "recv_iteration s = (Raised e, s')"
  shows "is_connected s' = is_connected s \<and> pending s' = pending s \<and> futures s' = futures s
     \<and> seq_counter s' = seq_counter s \<and> tx s' = tx s \<and> console s' = console s"
proof -
  obtain r1 evs1 where h: "recv_exactly 10 (rx s) = (r1, evs1)" by (cases "recv_exactly 10 (rx s)")
  show ?thesis
  proof (cases r1)
    case (Inl e1)
    with assms h show ?thesis by (auto simp: recv_iteration_def)
  next
    case (Inr header)
    obtain r2 evs2 where p: "recv_exactly (from_bytes (py_slice 6 10 header) AND 0xFFFFFF) evs1 = (r2, evs2)"
      by (cases "recv_exactly (from_bytes (py_slice 6 10 header) AND 0xFFFFFF) evs1")
    from assms h Inr p show ?thesis
      by (auto simp: recv_iteration_def Let_def split: if_splits sum.splits option.splits)
  qed
qed

lemma recv_iteration_console: "console (snd (recv_iteration s)) = console s"
proof -
  obtain r1 evs1 where h: "recv_exactly 10 (rx s) = (r1, evs1)" by (cases "recv_exactly 10 (rx s)")
  show ?thesis
  proof (cases r1)
    case (Inl e1)
    with h show ?thesis by (auto simp: recv_iteration_def)
  next
    case (Inr header)
    obtain r2 evs2 where p: "recv_exactly (from_bytes (py_slice 6 10 header) AND 0xFFFFFF) evs1 = (r2, evs2)"
      by (cases "recv_exactly (from_bytes (py_slice 6 10 header) AND 0xFFFFFF) evs1")
    from h Inr p show ?thesis
      by (auto simp: recv_iteration_def Let_def split: if_splits sum.splits option.splits)
  qed
qed

text \<open>What the loop has printed stays printed: the console only grows.\<close>

lemma recv_loop_console: "\<exists>rest. console (recv_loop s) = console s @ rest"
proof (induction s rule: recv_loop.induct)
  case (1 s)
  show ?case
  proof (cases "is_connected s")
    case False
    then show ?thesis by (simp add: recv_loop_not_connected)
  next
    case True
    obtain out s' where it: "recv_iteration s = (out, s')" by (cases "recv_iteration s")
    from recv_iteration_console [of s] it have c: "console s' = console s" by simp
    show ?thesis
    proof (cases out)
      case Stopped
      with True it have "recv_loop s = s'" by (subst recv_loop.simps) simp
      with c show ?thesis by simp
    next
      case Continue
      with True it have l: "recv_loop s = recv_loop s'" by (subst recv_loop.simps) simp
      from "1.IH"(1) [OF True it [symmetric] Continue]
      obtain rest where "console (recv_loop s') = console s' @ rest" by blast
      with l c show ?thesis by simp
    next
      case (Raised e)
      let ?t = "s'\<lparr>console := console s' @ [Printed e, Slept 1]\<rparr>"
      from Raised True it have l: "recv_loop s = recv_loop ?t" by (subst recv_loop.simps) simp
      from "1.IH"(2) [OF True it [symmetric] Raised]
      obtain rest where "console (recv_loop ?t) = console ?t @ rest" by blast
      with l c show ?thesis by simp
    qed
  qed
qed

text \<open>
  C9. An exception raised in a pass of the receive loop (by \<^verbatim>\<open>recv\<close>, or by
  \<^verbatim>\<open>_unpack_packet\<close> on a frame that does not decode) does not end the loop: the
  connection stays live, the pending requests and their futures are as they were, the
  exception is printed, the loop sleeps one second and then makes its next pass, on what
  follows in the stream: what the loop returns is what that next pass leads to. The
  printed line and the pause are in the console when the loop has ended, at the place
  where the exception occurred.
\<close>

theorem recv_loop_survives_exception:
  assumes "is_connected s" and "recv_iteration s = (Raised e, s')"
  shows "is_connected s' \<and> pending s' = pending s \<and> futures s' = futures s
     \<and> console s' = console s
     \<and> recv_loop s = recv_loop (s'\<lparr>console := console s' @ [Printed e, Slept 1]\<rparr>)
     \<and> recv_loop s =
         (case recv_iteration (s'\<lparr>console := console s' @ [Printed e, Slept 1]\<rparr>) of
            (Stopped, t) \<Rightarrow> t
          | (Continue, t) \<Rightarrow> recv_loop t
          | (Raised e', t) \<Rightarrow> recv_loop (t\<lparr>console := console t @ [Printed e', Slept 1]\<rparr>))
     \<and> (\<exists>rest. console (recv_loop s) = console s @ [Printed e, Slept 1] @ rest)"
proof -
  let ?t = "s'\<lparr>console := console s' @ [Printed e, Slept 1]\<rparr>"
  from recv_iteration_Raised [OF assms(2)] assms(1)
  have a: "is_connected s'" "pending s' = pending s" "futures s' = futures s"
    "console s' = console s" by simp_all
  have l: "recv_loop s = recv_loop ?t"
    using assms by (subst recv_loop.simps) simp
  from a(1) have "is_connected ?t" by simp
  then have n: "recv_loop ?t =
         (case recv_iteration ?t of
            (Stopped, t) \<Rightarrow> t
          | (Continue, t) \<Rightarrow> recv_loop t
          | (Raised e', t) \<Rightarrow> recv_loop (t\<lparr>console := console t @ [Printed e', Slept 1]\<rparr>))"
    by (subst recv_loop.simps) simp
  from recv_loop_console [of ?t] obtain rest where
    "console (recv_loop ?t) = console ?t @ rest" by blast
  with l a(4) have "console (recv_loop s) = console s @ [Printed e, Slept 1] @ rest" by simp
  then have c: "\<exists>rest. console (recv_loop s) = console s @ [Printed e, Slept 1] @ rest" by blast
  from l n have n': "recv_loop s =
         (case recv_iteration ?t of
            (Stopped, t) \<Rightarrow> t
          | (Continue, t) \<Rightarrow> recv_loop t
          | (Raised e', t) \<Rightarrow> recv_loop (t\<lparr>console := console t @ [Printed e', Slept 1]\<rparr>))"
    by simp
  from a l n' c show ?thesis by blast
qed

lemma lz4_c1: "lz4_block_decompress [0xc1] 99999 = None"
  by (simp add: lz4_eval)

lemma unpackb_c1: "unpackb [0xc1] = Inl FormatError"
  by (simp add: unpackb_def)

lemma bad_frame: "unpack_packet [10, 0, 0, 1, 0, 6, 0, 0, 0, 1, 0xc1] = Inl FormatError"
  by (simp add: unpack_packet_def unpack_packet_with_def py_slice_def from_bytes_def lz4_c1 unpackb_c1)

lemma recv_bad_header:
  "recv_exactly 10 (Data [10, 0, 0, 1, 0, 6, 0, 0, 0, 1, 0xc1] # evs)
     = (Inr [10, 0, 0, 1, 0, 6, 0, 0, 0, 1], Data [0xc1] # evs)"
  by (simp add: recv_exactly_def recv_exactly_loop.simps)

lemma recv_bad_payload:
  "recv_exactly 1 (Data [0xc1] # evs) = (Inr [0xc1], evs)"
  by (simp add: recv_exactly_def recv_exactly_loop.simps)

lemma bad_frame_iteration:
  "rx s = Data [10, 0, 0, 1, 0, 6, 0, 0, 0, 1, 0xc1] # evs \<Longrightarrow>
     recv_iteration s = (Raised FormatError, s\<lparr>rx := evs\<rparr>)"
proof -
  assume r: "rx s = Data [10, 0, 0, 1, 0, 6, 0, 0, 0, 1, 0xc1] # evs"
  have h: "recv_exactly 10 (rx s) = (Inr [10, 0, 0, 1, 0, 6, 0, 0, 0, 1], Data [0xc1] # evs)"
    by (simp add: r recv_bad_header)
  have l: "from_bytes (py_slice 6 10 [10, 0, 0, 1, 0, 6, 0, 0, 0, 1 :: byte]) AND 0xFFFFFF = 1"
    by (simp add: py_slice_def from_bytes_def)
  have p: "recv_exactly (from_bytes (py_slice 6 10 [10, 0, 0, 1, 0, 6, 0, 0, 0, 1 :: byte]) AND 0xFFFFFF)
      (Data [0xc1] # evs) = (Inr [0xc1], evs)"
    by (simp only: l recv_bad_payload)
  have u: "unpack_packet ([10, 0, 0, 1, 0, 6, 0, 0, 0, 1] @ [0xc1]) = Inl FormatError"
    using bad_frame by simp
  show ?thesis
    by (rule recv_iteration_decode_error [OF h _ p u]) simp
qed

lemma two_frames_state:
  "two_frames =
    (connect [Data [10, 0, 0, 1, 0, 6, 0, 0, 0, 1, 0xc1], Data reply_frame] True)
      \<lparr>seq_counter := 1, futures := [FPending], pending := [1 \<mapsto> 0],
       tx := [[10, 0, 0, 1, 0, 6, 0, 0, 0, 1, 0x80]]\<rparr>"
  by (simp add: two_frames_def first_send)

lemma reply_lz4:
  "lz4_block_decompress [0x81, 0xa7, 0x70, 0x61, 0x79, 0x6c, 0x6f, 0x61, 0x64, 0x81, 0xa2, 0x6f, 0x6b, 0xc3] 99999 = None"
  by (simp add: lz4_eval)

lemma reply_unpackb:
  "unpackb [0x81, 0xa7, 0x70, 0x61, 0x79, 0x6c, 0x6f, 0x61, 0x64, 0x81, 0xa2, 0x6f, 0x6b, 0xc3] = Inr reply_value"
  by (simp add: unpackb_def reply_value_def read_str_def read_n_def)

lemma reply_unpack: "unpack_packet reply_frame = Inr reply_value"
  by (simp add: unpack_packet_def unpack_packet_with_def reply_frame_def py_slice_def from_bytes_def reply_lz4 reply_unpackb)

lemma reply_header:
  "recv_exactly 10 [Data reply_frame] =
    (Inr [10, 0, 0, 1, 0, 6, 0, 0, 0, 14],
     [Data [0x81, 0xa7, 0x70, 0x61, 0x79, 0x6c, 0x6f, 0x61, 0x64, 0x81, 0xa2, 0x6f, 0x6b, 0xc3]])"
  by (simp add: recv_exactly_def recv_exactly_loop.simps reply_frame_def)

lemma reply_payload:
  "recv_exactly 14 [Data [0x81, 0xa7, 0x70, 0x61, 0x79, 0x6c, 0x6f, 0x61, 0x64, 0x81, 0xa2, 0x6f, 0x6b, 0xc3]]
    = (Inr [0x81, 0xa7, 0x70, 0x61, 0x79, 0x6c, 0x6f, 0x61, 0x64, 0x81, 0xa2, 0x6f, 0x6b, 0xc3], [])"
  by (simp add: recv_exactly_def recv_exactly_loop.simps)

lemma recv_exactly_closed: "recv_exactly 10 [] = (Inr [], [])"
  by (simp add: recv_exactly_def recv_exactly_loop.simps)

lemma reply_iteration:
  "rx s = [Data reply_frame] \<Longrightarrow> pending s 1 = Some fut \<Longrightarrow>
     recv_iteration s =
       (Continue, s\<lparr>rx := [], pending := (pending s)(1 := None),
                    futures := set_result fut reply_value (futures s)\<rparr>)"
proof -
  let ?h = "[10, 0, 0, 1, 0, 6, 0, 0, 0, 14] :: bytes"
  let ?p = "[0x81, 0xa7, 0x70, 0x61, 0x79, 0x6c, 0x6f, 0x61, 0x64, 0x81, 0xa2, 0x6f, 0x6b, 0xc3] :: bytes"
  assume r: "rx s = [Data reply_frame]" and q: "pending s 1 = Some fut"
  have l: "from_bytes (py_slice 6 10 ?h) AND 0xFFFFFF = 14"
    by (simp add: py_slice_def from_bytes_def)
  have k: "int (from_bytes (py_slice 3 4 ?h)) = 1"
    by (simp add: py_slice_def from_bytes_def)
  have r1: "recv_exactly 10 (rx s) = (Inr ?h, [Data ?p])"
    by (simp add: r reply_header)
  have r2: "recv_exactly (from_bytes (py_slice 6 10 ?h) AND 0xFFFFFF) [Data ?p] = (Inr ?p, [])"
    by (simp only: l reply_payload)
  have u: "unpack_packet (?h @ ?p) = Inr reply_value"
    using reply_unpack by (simp add: reply_frame_def)
  from q k have q': "pending s (int (from_bytes (py_slice 3 4 ?h))) = Some fut" by simp
  have "recv_iteration s =
       (Continue, s\<lparr>rx := [],
                    pending := (pending s)(int (from_bytes (py_slice 3 4 ?h)) := None),
                    futures := set_result fut reply_value (futures s)\<rparr>)"
    by (rule recv_iteration_resolves [OF r1 _ r2 u q']) simp
  then show ?thesis by (simp only: k)
qed

text \<open>
  The witness is the stream \<open>two_frames\<close>: the first pass raises \<^verbatim>\<open>FormatError\<close>; the
  loop prints it, sleeps, reads the answer and gives it to the waiting future, and stops
  at the end of the stream.
\<close>

theorem recv_loop_survives_exception_witness:
  "is_connected two_frames
   \<and> recv_iteration two_frames = (Raised FormatError, two_frames\<lparr>rx := [Data reply_frame]\<rparr>)
   \<and> recv_loop two_frames =
       two_frames\<lparr>rx := [], is_connected := False, pending := Map.empty,
                  futures := [FResult reply_value],
                  console := [Printed FormatError, Slept 1]\<rparr>
   \<and> await_fut two_frames 0 = None
   \<and> await_fut (recv_loop two_frames) 0 = Some (Inr reply_value)
   \<and> console (recv_loop two_frames) = [Printed FormatError, Slept 1]"
proof -
  let ?s1 = "two_frames\<lparr>rx := [Data reply_frame]\<rparr>"
  let ?s2 = "?s1\<lparr>console := console ?s1 @ [Printed FormatError, Slept 1]\<rparr>"
  let ?s3 = "?s2\<lparr>rx := [], pending := (pending ?s2)(1 := None),
                 futures := set_result 0 reply_value (futures ?s2)\<rparr>"
  have c: "is_connected two_frames" by (simp add: two_frames_state connect_def)
  have it: "recv_iteration two_frames = (Raised FormatError, ?s1)"
    by (rule bad_frame_iteration) (simp add: two_frames_state connect_def)
  have it2: "recv_iteration ?s2 = (Continue, ?s3)"
    by (rule reply_iteration) (simp_all add: two_frames_state connect_def)
  have it3: "recv_iteration ?s3 = (Stopped, ?s3\<lparr>rx := [], is_connected := False\<rparr>)"
    by (rule recv_iteration_eof) (simp add: recv_exactly_closed)
  have c3: "is_connected ?s3" using c by simp
  have l3: "recv_loop ?s3 = ?s3\<lparr>rx := [], is_connected := False\<rparr>"
    using c3 it3 by (subst recv_loop.simps) simp
  from recv_loop_survives_exception [OF c it]
  have "recv_loop two_frames =
         (case recv_iteration ?s2 of
            (Stopped, t) \<Rightarrow> t
          | (Continue, t) \<Rightarrow> recv_loop t
          | (Raised e', t) \<Rightarrow> recv_loop (t\<lparr>console := console t @ [Printed e', Slept 1]\<rparr>))"
    by blast
  then have "recv_loop two_frames = ?s3\<lparr>rx := [], is_connected := False\<rparr>"
    by (simp only: it2 l3 prod.case outcome.case)
  then have f: "recv_loop two_frames =
       two_frames\<lparr>rx := [], is_connected := False, pending := Map.empty,
                  futures := [FResult reply_value],
                  console := [Printed FormatError, Slept 1]\<rparr>"
    by (simp add: two_frames_state connect_def set_result_def)
  have a0: "await_fut two_frames 0 = None"
    by (simp add: two_frames_state connect_def await_fut_def)
  have a1: "await_fut (recv_loop two_frames) 0 = Some (Inr reply_value)"
    by (simp add: f await_fut_def)
  have co: "console (recv_loop two_frames) = [Printed FormatError, Slept 1]"
    by (simp add: f)
  from c it f a0 a1 co show ?thesis by blast
qed


text \<open>
  C4 (as the code has it). When the header read returns no bytes the receive loop clears
  \<^verbatim>\<open>is_connected\<close> and stops, and that is all: the table of pending requests and every
  future are left as they were, so nothing is cancelled. An exception from \<^verbatim>\<open>recv\<close> does
  not stop the loop: it is printed and the loop goes on after a second.
\<close>

theorem recv_loop_end_of_stream:
  assumes "is_connected s"
  shows "(\<forall>evs. recv_exactly 10 (rx s) = (Inr [], evs) \<longrightarrow>
            recv_loop s = s\<lparr>rx := evs, is_connected := False\<rparr>
            \<and> \<not> is_connected (recv_loop s)
            \<and> pending (recv_loop s) = pending s
            \<and> futures (recv_loop s) = futures s)
       \<and> (\<forall>e evs. recv_exactly 10 (rx s) = (Inl e, evs) \<longrightarrow>
            recv_loop s = recv_loop (s\<lparr>rx := evs, console := console s @ [Printed e, Slept 1]\<rparr>))"
proof (intro conjI allI impI)
  fix evs
  assume h: "recv_exactly 10 (rx s) = (Inr [], evs)"
  have l: "recv_loop s = s\<lparr>rx := evs, is_connected := False\<rparr>"
    using assms recv_iteration_eof [OF h] by (subst recv_loop.simps) simp
  then show "recv_loop s = s\<lparr>rx := evs, is_connected := False\<rparr>" .
  from l show "\<not> is_connected (recv_loop s)" by simp
  from l show "pending (recv_loop s) = pending s" by simp
  from l show "futures (recv_loop s) = futures s" by simp
next
  fix e evs
  assume h: "recv_exactly 10 (rx s) = (Inl e, evs)"
  show "recv_loop s = recv_loop (s\<lparr>rx := evs, console := console s @ [Printed e, Slept 1]\<rparr>)"
    using assms recv_iteration_read_error [OF h] by (subst recv_loop.simps) simp
qed

lemma first_send_state:
  "snd (send_msg 6 (PDict []) (connect [] True)) =
    (connect [] True)\<lparr>seq_counter := 1, futures := [FPending],
        pending := [1 \<mapsto> 0], tx := [[10, 0, 0, 1, 0, 6, 0, 0, 0, 1, 0x80]]\<rparr>"
  by (simp add: first_send)

theorem recv_loop_end_of_stream_witness:
  "is_connected (snd (send_msg 6 (PDict []) (connect [] True)))
   \<and> recv_exactly 10 (rx (snd (send_msg 6 (PDict []) (connect [] True)))) = (Inr [], [])
   \<and> recv_loop (snd (send_msg 6 (PDict []) (connect [] True)))
       = (snd (send_msg 6 (PDict []) (connect [] True)))\<lparr>rx := [], is_connected := False\<rparr>
   \<and> pending (recv_loop (snd (send_msg 6 (PDict []) (connect [] True))))
       = pending (snd (send_msg 6 (PDict []) (connect [] True)))
   \<and> futures (recv_loop (snd (send_msg 6 (PDict []) (connect [] True))))
       = futures (snd (send_msg 6 (PDict []) (connect [] True)))"
proof -
  have c: "is_connected (snd (send_msg 6 (PDict []) (connect [] True)))"
    unfolding first_send_state by (simp add: connect_def)
  have h: "recv_exactly 10 (rx (snd (send_msg 6 (PDict []) (connect [] True)))) = (Inr [], [])"
    unfolding first_send_state by (simp add: connect_def recv_exactly_closed)
  from recv_loop_end_of_stream [OF c] h c show ?thesis by blast
qed

text \<open>
  A request is sent and the peer closes the socket without answering: the loop has
  stopped, the future of the request is still pending and still in the table, and its
  caller is still suspended.
\<close>

theorem peer_close_leaves_waiter_counterexample:
  "fst (send_msg 6 (PDict []) (connect [] True)) = Inr 0
   \<and> \<not> is_connected (recv_loop (snd (send_msg 6 (PDict []) (connect [] True))))
   \<and> pending (recv_loop (snd (send_msg 6 (PDict []) (connect [] True)))) 1 = Some 0
   \<and> futures (recv_loop (snd (send_msg 6 (PDict []) (connect [] True)))) ! 0 = FPending
   \<and> await_fut (recv_loop (snd (send_msg 6 (PDict []) (connect [] True)))) 0 = None"
proof -
  let ?s = "(connect [] True)\<lparr>seq_counter := 1, futures := [FPending],
        pending := [1 \<mapsto> 0], tx := [[10, 0, 0, 1, 0, 6, 0, 0, 0, 1, 0x80]]\<rparr>"
  have it: "recv_iteration ?s = (Stopped, ?s\<lparr>rx := [], is_connected := False\<rparr>)"
    by (rule recv_iteration_eof) (simp add: connect_def recv_exactly_closed)
  have "is_connected ?s" by (simp add: connect_def)
  then have "recv_loop ?s = ?s\<lparr>rx := [], is_connected := False\<rparr>"
    using it by (subst recv_loop.simps) simp
  then show ?thesis
    by (simp add: first_send await_fut_def)
qed



















section \<open>Round trips through the codec\<close>

lemma unat_byte: "n < 256 \<Longrightarrow> unat (of_nat n :: byte) = n"
  by (simp add: unat_of_nat)

lemma read_n_be: "read_n k (be_bytes k n @ rest) = Inr (be_bytes k n, rest)"
  by (simp add: read_n_def length_be_bytes)

lemma read_n_app: "length s = n \<Longrightarrow> read_n n (s @ rest) = Inr (s, rest)"
  by (simp add: read_n_def)

lemma with_len_be:
  "n < 256 ^ k \<Longrightarrow> with_len k (be_bytes k n @ rest) f = f n rest"
  by (simp add: with_len_def read_n_be from_bytes_be_bytes)

lemma bind_bytes_Inr:
  "bind_bytes a b = Inr c \<longleftrightarrow> (\<exists>x y. a = Inr x \<and> b = Inr y \<and> c = x @ y)"
  by (auto simp: bind_bytes_def split: sum.splits)

lemma read_head_nil: "read_head (0xc0 # rest) = Inr (HVal PNone, rest)"
  by simp

lemma read_head_bool: "read_head ((if b then 0xc3 else 0xc2) # rest) = Inr (HVal (PBool b), rest)"
  by simp

lemma read_head_array:
  assumes "pack_array_head n = Inr h"
  shows "read_head (h @ rest) = Inr (HArray n, rest)"
proof -
  consider "n < 16" | "16 \<le> n" "n < 65536" | "65536 \<le> n" "n < 4294967296"
    using assms by (auto simp: pack_array_head_def split: if_splits)
  then show ?thesis
  proof cases
    case 1
    then have "h = [of_nat (0x90 + n)]" using assms by (simp add: pack_array_head_def)
    moreover from 1 have "unat (of_nat (0x90 + n) :: byte) = 0x90 + n" by (intro unat_byte) simp
    ultimately show ?thesis using 1 by simp
  next
    case 2
    then have "h = 0xdc # be_bytes 2 n" using assms by (simp add: pack_array_head_def)
    moreover have "with_len 2 (be_bytes 2 n @ rest) (\<lambda>n r. Inr (HArray n, r)) = Inr (HArray n, rest)"
      using 2 by (intro with_len_be) simp
    ultimately show ?thesis by (simp del: be_bytes.simps)
  next
    case 3
    then have "h = 0xdd # be_bytes 4 n" using assms by (simp add: pack_array_head_def)
    moreover have "with_len 4 (be_bytes 4 n @ rest) (\<lambda>n r. Inr (HArray n, r)) = Inr (HArray n, rest)"
      using 3 by (intro with_len_be) simp
    ultimately show ?thesis by (simp del: be_bytes.simps)
  qed
qed

lemma read_head_map:
  assumes "pack_map_head n = Inr h"
  shows "read_head (h @ rest) = Inr (HMap n, rest)"
proof -
  consider "n < 16" | "16 \<le> n" "n < 65536" | "65536 \<le> n" "n < 4294967296"
    using assms by (auto simp: pack_map_head_def split: if_splits)
  then show ?thesis
  proof cases
    case 1
    then have "h = [of_nat (0x80 + n)]" using assms by (simp add: pack_map_head_def)
    moreover from 1 have "unat (of_nat (0x80 + n) :: byte) = 0x80 + n" by (intro unat_byte) simp
    ultimately show ?thesis using 1 by simp
  next
    case 2
    then have "h = 0xde # be_bytes 2 n" using assms by (simp add: pack_map_head_def)
    moreover have "with_len 2 (be_bytes 2 n @ rest) (\<lambda>n r. Inr (HMap n, r)) = Inr (HMap n, rest)"
      using 2 by (intro with_len_be) simp
    ultimately show ?thesis by (simp del: be_bytes.simps)
  next
    case 3
    then have "h = 0xdf # be_bytes 4 n" using assms by (simp add: pack_map_head_def)
    moreover have "with_len 4 (be_bytes 4 n @ rest) (\<lambda>n r. Inr (HMap n, r)) = Inr (HMap n, rest)"
      using 3 by (intro with_len_be) simp
    ultimately show ?thesis by (simp del: be_bytes.simps)
  qed
qed

lemma read_head_str:
  assumes "pack_str_head (length s) = Inr h" "utf8_valid s"
  shows "read_head (h @ s @ rest) = Inr (HVal (PStr s), rest)"
proof -
  let ?n = "length s"
  have rs: "read_str ?n (s @ rest) = Inr (HVal (PStr s), rest)"
    using assms(2) by (simp add: read_str_def read_n_app)
  consider "?n < 32" | "32 \<le> ?n" "?n < 256" | "256 \<le> ?n" "?n < 65536" | "65536 \<le> ?n" "?n < 4294967296"
    using assms(1) by (auto simp: pack_str_head_def split: if_splits)
  then show ?thesis
  proof cases
    case 1
    then have "h = [of_nat (0xa0 + ?n)]" using assms by (simp add: pack_str_head_def)
    moreover from 1 have "unat (of_nat (0xa0 + ?n) :: byte) = 0xa0 + ?n" by (intro unat_byte) simp
    ultimately show ?thesis using 1 rs by simp
  next
    case 2
    then have "h = 0xd9 # be_bytes 1 ?n" using assms by (simp add: pack_str_head_def)
    moreover have "with_len 1 (be_bytes 1 ?n @ s @ rest) read_str = read_str ?n (s @ rest)"
      using 2 by (intro with_len_be) simp
    ultimately show ?thesis using rs by (simp del: be_bytes.simps)
  next
    case 3
    then have "h = 0xda # be_bytes 2 ?n" using assms by (simp add: pack_str_head_def)
    moreover have "with_len 2 (be_bytes 2 ?n @ s @ rest) read_str = read_str ?n (s @ rest)"
      using 3 by (intro with_len_be) simp
    ultimately show ?thesis using rs by (simp del: be_bytes.simps)
  next
    case 4
    then have "h = 0xdb # be_bytes 4 ?n" using assms by (simp add: pack_str_head_def)
    moreover have "with_len 4 (be_bytes 4 ?n @ s @ rest) read_str = read_str ?n (s @ rest)"
      using 4 by (intro with_len_be) simp
    ultimately show ?thesis using rs by (simp del: be_bytes.simps)
  qed
qed

lemma read_head_bin:
  assumes "pack_bin_head (length s) = Inr h"
  shows "read_head (h @ s @ rest) = Inr (HVal (PBytes s), rest)"
proof -
  let ?n = "length s"
  have rs: "read_bin ?n (s @ rest) = Inr (HVal (PBytes s), rest)"
    by (simp add: read_bin_def read_n_app)
  consider "?n < 256" | "256 \<le> ?n" "?n < 65536" | "65536 \<le> ?n" "?n < 4294967296"
    using assms(1) by (auto simp: pack_bin_head_def split: if_splits)
  then show ?thesis
  proof cases
    case 1
    then have "h = 0xc4 # be_bytes 1 ?n" using assms by (simp add: pack_bin_head_def)
    moreover have "with_len 1 (be_bytes 1 ?n @ s @ rest) read_bin = read_bin ?n (s @ rest)"
      using 1 by (intro with_len_be) simp
    ultimately show ?thesis using rs by (simp del: be_bytes.simps)
  next
    case 2
    then have "h = 0xc5 # be_bytes 2 ?n" using assms by (simp add: pack_bin_head_def)
    moreover have "with_len 2 (be_bytes 2 ?n @ s @ rest) read_bin = read_bin ?n (s @ rest)"
      using 2 by (intro with_len_be) simp
    ultimately show ?thesis using rs by (simp del: be_bytes.simps)
  next
    case 3
    then have "h = 0xc6 # be_bytes 4 ?n" using assms by (simp add: pack_bin_head_def)
    moreover have "with_len 4 (be_bytes 4 ?n @ s @ rest) read_bin = read_bin ?n (s @ rest)"
      using 3 by (intro with_len_be) simp
    ultimately show ?thesis using rs by (simp del: be_bytes.simps)
  qed
qed


lemma int_mod_neg:
  assumes "- m \<le> d" "d < 0"
  shows "d mod m = d + (m::int)"
proof -
  have "(d + m) mod m = d + m" using assms by (intro mod_pos_pos_trivial) simp_all
  then show ?thesis by simp
qed

lemma read_uint_be:
  "n < 256 ^ k \<Longrightarrow> read_uint k (be_bytes k n @ rest) = Inr (HVal (PInt (int n)), rest)"
  by (simp add: read_uint_def with_len_be del: be_bytes.simps)

lemma read_sint_be:
  "n < 256 ^ k \<Longrightarrow> read_sint k (be_bytes k n @ rest)
     = Inr (HVal (PInt (if 2 * n < 256 ^ k then int n else int n - 256 ^ k)), rest)"
  by (simp add: read_sint_def with_len_be del: be_bytes.simps)

lemma read_head_nfix:
  assumes "224 \<le> n" "n < 256"
  shows "read_head (of_nat n # rest) = Inr (HVal (PInt (int n - 256)), rest)"
proof -
  from assms have "unat (of_nat n :: byte) = n" by (intro unat_byte)
  with assms show ?thesis by (simp add: Let_def)
qed

lemma read_head_pfix:
  assumes "n < 128"
  shows "read_head (of_nat n # rest) = Inr (HVal (PInt (int n)), rest)"
proof -
  from assms have "unat (of_nat n :: byte) = n" by (intro unat_byte) simp
  with assms show ?thesis by (simp add: Let_def)
qed

lemma read_head_int:
  assumes "pack_int d = Inr b"
  shows "read_head (b @ rest) = Inr (HVal (PInt d), rest)"
proof -
  consider (i64) "- 9223372036854775808 \<le> d" "d < - 2147483648"
    | (i32) "- 2147483648 \<le> d" "d < - 32768"
    | (i16) "- 32768 \<le> d" "d < - 128"
    | (i8) "- 128 \<le> d" "d < - 32"
    | (nfix) "- 32 \<le> d" "d < 0"
    | (pfix) "0 \<le> d" "d < 128"
    | (u8) "128 \<le> d" "d < 256"
    | (u16) "256 \<le> d" "d < 65536"
    | (u32) "65536 \<le> d" "d < 4294967296"
    | (u64) "4294967296 \<le> d" "d < 18446744073709551616"
  proof -
    have "- 9223372036854775808 \<le> d \<and> d < 18446744073709551616"
      using assms by (simp add: pack_int_def split: if_splits)
    then show ?thesis using that by atomize_elim arith
  qed
  then show ?thesis
  proof cases
    case i64
    then have b: "b = 0xd3 # be_bytes 8 (nat (d mod 18446744073709551616))"
      using assms by (simp add: pack_int_def)
    from i64 have m: "d mod 18446744073709551616 = d + 18446744073709551616"
      by (intro int_mod_neg) simp_all
    have "read_sint 8 (be_bytes 8 (nat (d + 18446744073709551616)) @ rest)
        = Inr (HVal (PInt (if 2 * nat (d + 18446744073709551616) < 256 ^ 8
             then int (nat (d + 18446744073709551616))
             else int (nat (d + 18446744073709551616)) - 256 ^ 8)), rest)"
      using i64 by (intro read_sint_be) simp
    also have "(if 2 * nat (d + 18446744073709551616) < 256 ^ 8
             then int (nat (d + 18446744073709551616))
             else int (nat (d + 18446744073709551616)) - 256 ^ 8) = d"
      using i64 by simp
    finally show ?thesis by (simp add: b m del: be_bytes.simps)
  next
    case i32
    then have b: "b = 0xd2 # be_bytes 4 (nat (d mod 4294967296))"
      using assms by (simp add: pack_int_def)
    from i32 have m: "d mod 4294967296 = d + 4294967296"
      by (intro int_mod_neg) simp_all
    have "read_sint 4 (be_bytes 4 (nat (d + 4294967296)) @ rest)
        = Inr (HVal (PInt (if 2 * nat (d + 4294967296) < 256 ^ 4
             then int (nat (d + 4294967296))
             else int (nat (d + 4294967296)) - 256 ^ 4)), rest)"
      using i32 by (intro read_sint_be) simp
    also have "(if 2 * nat (d + 4294967296) < 256 ^ 4
             then int (nat (d + 4294967296))
             else int (nat (d + 4294967296)) - 256 ^ 4) = d"
      using i32 by simp
    finally show ?thesis by (simp add: b m del: be_bytes.simps)
  next
    case i16
    then have b: "b = 0xd1 # be_bytes 2 (nat (d mod 65536))"
      using assms by (simp add: pack_int_def)
    from i16 have m: "d mod 65536 = d + 65536"
      by (intro int_mod_neg) simp_all
    have "read_sint 2 (be_bytes 2 (nat (d + 65536)) @ rest)
        = Inr (HVal (PInt (if 2 * nat (d + 65536) < 256 ^ 2
             then int (nat (d + 65536))
             else int (nat (d + 65536)) - 256 ^ 2)), rest)"
      using i16 by (intro read_sint_be) simp
    also have "(if 2 * nat (d + 65536) < 256 ^ 2
             then int (nat (d + 65536))
             else int (nat (d + 65536)) - 256 ^ 2) = d"
      using i16 by simp
    finally show ?thesis by (simp add: b m del: be_bytes.simps)
  next
    case i8
    then have b: "b = 0xd0 # be_bytes 1 (nat (d mod 256))"
      using assms by (simp add: pack_int_def)
    from i8 have m: "d mod 256 = d + 256"
      by (intro int_mod_neg) simp_all
    have "read_sint 1 (be_bytes 1 (nat (d + 256)) @ rest)
        = Inr (HVal (PInt (if 2 * nat (d + 256) < 256 ^ 1
             then int (nat (d + 256))
             else int (nat (d + 256)) - 256 ^ 1)), rest)"
      using i8 by (intro read_sint_be) simp
    also have "(if 2 * nat (d + 256) < 256 ^ 1
             then int (nat (d + 256))
             else int (nat (d + 256)) - 256 ^ 1) = d"
      using i8 by simp
    finally show ?thesis by (simp add: b m del: be_bytes.simps)
  next
    case nfix
    define n where "n = nat (d mod 256)"
    from nfix have m: "d mod 256 = d + 256" by (intro int_mod_neg) simp_all
    from nfix have n: "224 \<le> n" "n < 256" "int n - 256 = d" by (simp_all add: n_def m)
    have "pack_int d = Inr (be_bytes 1 n)"
      using nfix unfolding n_def pack_int_def by (simp del: be_bytes.simps One_nat_def)
    with assms have "b = be_bytes 1 n" by simp
    then have "b @ rest = of_nat n # rest" by (simp only: be_bytes_1 append.simps)
    with read_head_nfix [OF n(1,2), of rest] n(3) show ?thesis by simp
  next
    case pfix
    define n where "n = nat (d mod 256)"
    from pfix have n: "n < 128" "int n = d" by (simp_all add: n_def)
    have "pack_int d = Inr (be_bytes 1 n)"
      using pfix unfolding n_def pack_int_def by (simp del: be_bytes.simps One_nat_def)
    with assms have "b = be_bytes 1 n" by simp
    then have "b @ rest = of_nat n # rest" by (simp only: be_bytes_1 append.simps)
    with read_head_pfix [OF n(1), of rest] n(2) show ?thesis by simp
  next
    case u8
    then have b: "b = 0xcc # be_bytes 1 (nat d)" using assms by (simp add: pack_int_def)
    have "read_uint 1 (be_bytes 1 (nat d) @ rest) = Inr (HVal (PInt (int (nat d))), rest)"
      using u8 by (intro read_uint_be) simp
    with u8 show ?thesis by (simp add: b del: be_bytes.simps)
  next
    case u16
    then have b: "b = 0xcd # be_bytes 2 (nat d)" using assms by (simp add: pack_int_def)
    have "read_uint 2 (be_bytes 2 (nat d) @ rest) = Inr (HVal (PInt (int (nat d))), rest)"
      using u16 by (intro read_uint_be) simp
    with u16 show ?thesis by (simp add: b del: be_bytes.simps)
  next
    case u32
    then have b: "b = 0xce # be_bytes 4 (nat d)" using assms by (simp add: pack_int_def)
    have "read_uint 4 (be_bytes 4 (nat d) @ rest) = Inr (HVal (PInt (int (nat d))), rest)"
      using u32 by (intro read_uint_be) simp
    with u32 show ?thesis by (simp add: b del: be_bytes.simps)
  next
    case u64
    then have b: "b = 0xcf # be_bytes 8 (nat d)" using assms by (simp add: pack_int_def)
    have "read_uint 8 (be_bytes 8 (nat d) @ rest) = Inr (HVal (PInt (int (nat d))), rest)"
      using u64 by (intro read_uint_be) simp
    with u64 show ?thesis by (simp add: b del: be_bytes.simps)
  qed
qed


lemma dict_set_fresh:
  "key_norm k \<notin> set (map (\<lambda>kv. key_norm (fst kv)) acc) \<Longrightarrow> dict_set acc k v = acc @ [(k, v)]"
  by (induction acc) auto

lemma unpack_obj_head:
  "read_head bs = Inr (HVal v, r) \<Longrightarrow> unpack_obj d bs = Inr (v, r)"
  by simp

lemma unpack_obj_array:
  "read_head bs = Inr (HArray n, r) \<Longrightarrow> unpack_items d n r = Inr (xs, r') \<Longrightarrow>
     unpack_obj (Suc d) bs = Inr (PList xs, r')"
  by simp

lemma unpack_obj_map:
  "read_head bs = Inr (HMap n, r) \<Longrightarrow> unpack_pairs d n r [] = Inr (kvs, r') \<Longrightarrow>
     unpack_obj (Suc d) bs = Inr (PDict kvs, r')"
  by simp


declare unpack_obj.simps [simp del]

lemma roundtrip_all:
  "(\<forall>b d rest. pack_obj n v = Inr b \<longrightarrow> py_wf v \<longrightarrow> n \<le> d \<longrightarrow>
      unpack_obj d (b @ rest) = Inr (v, rest))"
  "(\<forall>b d rest. pack_items n xs = Inr b \<longrightarrow> (\<forall>x \<in> set xs. py_wf x) \<longrightarrow> n \<le> d \<longrightarrow>
      unpack_items d (length xs) (b @ rest) = Inr (xs, rest))"
  "(\<forall>b d rest acc. pack_pairs n kvs = Inr b \<longrightarrow>
      (\<forall>(k, v) \<in> set kvs. hashable k \<and> py_wf k \<and> py_wf v) \<longrightarrow>
      distinct (map (\<lambda>kv. key_norm (fst kv)) (acc @ kvs)) \<longrightarrow> n \<le> d \<longrightarrow>
      unpack_pairs d (length kvs) (b @ rest) acc = Inr (acc @ kvs, rest))"
proof (induction n v and n xs and n kvs rule: pack_obj_pack_items_pack_pairs.induct)
  case (1 v)
  show ?case by simp
next
  case (2 n)
  show ?case using read_head_nil by (auto intro!: unpack_obj_head)
next
  case (3 n b)
  show ?case using read_head_bool [of b] by (auto intro!: unpack_obj_head)
next
  case (4 n d)
  show ?case by (auto intro!: unpack_obj_head read_head_int)
next
  case (5 n s)
  show ?case
  proof (intro allI impI)
    fix b d rest
    assume p: "pack_obj (Suc n) (PStr s) = Inr b" and w: "py_wf (PStr s)"
    from p obtain h where h: "pack_str_head (length s) = Inr h" "b = h @ s"
      by (auto simp: bind_bytes_Inr)
    from w have "utf8_valid s" by simp
    from read_head_str [OF h(1) this, of rest]
    have "read_head (b @ rest) = Inr (HVal (PStr s), rest)" by (simp add: h(2))
    then show "unpack_obj d (b @ rest) = Inr (PStr s, rest)" by (rule unpack_obj_head)
  qed
next
  case (6 n s)
  show ?case
  proof (intro allI impI)
    fix b d rest
    assume p: "pack_obj (Suc n) (PBytes s) = Inr b"
    from p obtain h where h: "pack_bin_head (length s) = Inr h" "b = h @ s"
      by (auto simp: bind_bytes_Inr)
    from read_head_bin [OF h(1), of rest]
    have "read_head (b @ rest) = Inr (HVal (PBytes s), rest)" by (simp add: h(2))
    then show "unpack_obj d (b @ rest) = Inr (PBytes s, rest)" by (rule unpack_obj_head)
  qed
next
  case (7 n xs)
  show ?case
  proof (intro allI impI)
    fix b d rest
    assume p: "pack_obj (Suc n) (PList xs) = Inr b" and w: "py_wf (PList xs)" and le: "Suc n \<le> d"
    from p obtain h bi where h: "pack_array_head (length xs) = Inr h" "pack_items n xs = Inr bi"
      "b = h @ bi" by (auto simp: bind_bytes_Inr)
    from le obtain d' where d: "d = Suc d'" "n \<le> d'" by (cases d) auto
    from w have wx: "\<forall>x \<in> set xs. py_wf x" by simp
    from "7.IH" h(2) wx d(2)
    have it: "unpack_items d' (length xs) (bi @ rest) = Inr (xs, rest)" by blast
    from read_head_array [OF h(1), of "bi @ rest"]
    have "read_head (b @ rest) = Inr (HArray (length xs), bi @ rest)" by (simp add: h(3))
    from unpack_obj_array [OF this it] show "unpack_obj d (b @ rest) = Inr (PList xs, rest)"
      by (simp add: d(1))
  qed
next
  case (8 n kvs)
  show ?case
  proof (intro allI impI)
    fix b d rest
    assume p: "pack_obj (Suc n) (PDict kvs) = Inr b" and w: "py_wf (PDict kvs)" and le: "Suc n \<le> d"
    from p obtain h bi where h: "pack_map_head (length kvs) = Inr h" "pack_pairs n kvs = Inr bi"
      "b = h @ bi" by (auto simp: bind_bytes_Inr)
    from le obtain d' where d: "d = Suc d'" "n \<le> d'" by (cases d) auto
    from w have wx: "\<forall>(k, v) \<in> set kvs. hashable k \<and> py_wf k \<and> py_wf v"
      and di: "distinct (map (\<lambda>kv. key_norm (fst kv)) ([] @ kvs))" by simp_all
    from "8.IH" h(2) wx di d(2)
    have it: "unpack_pairs d' (length kvs) (bi @ rest) [] = Inr ([] @ kvs, rest)" by blast
    from read_head_map [OF h(1), of "bi @ rest"]
    have "read_head (b @ rest) = Inr (HMap (length kvs), bi @ rest)" by (simp add: h(3))
    from unpack_obj_map [OF this] it show "unpack_obj d (b @ rest) = Inr (PDict kvs, rest)"
      by (simp add: d(1))
  qed
next
  case (9 n)
  show ?case by simp
next
  case (10 n x xs)
  show ?case
  proof (intro allI impI)
    fix b d rest
    assume p: "pack_items n (x # xs) = Inr b" and w: "\<forall>y \<in> set (x # xs). py_wf y" and le: "n \<le> d"
    from p obtain bx bxs where h: "pack_obj n x = Inr bx" "pack_items n xs = Inr bxs" "b = bx @ bxs"
      by (auto simp: bind_bytes_Inr)
    from w have wx: "py_wf x" and wxs: "\<forall>y \<in> set xs. py_wf y" by simp_all
    from "10.IH"(1) h(1) wx le
    have a: "unpack_obj d (bx @ (bxs @ rest)) = Inr (x, bxs @ rest)" by blast
    from "10.IH"(2) h(2) wxs le
    have c: "unpack_items d (length xs) (bxs @ rest) = Inr (xs, rest)" by blast
    from a c show "unpack_items d (length (x # xs)) (b @ rest) = Inr (x # xs, rest)"
      by (simp add: h(3))
  qed
next
  case (11 n)
  show ?case by simp
next
  case (12 n k v kvs)
  show ?case
  proof (intro allI impI)
    fix b d rest acc
    assume p: "pack_pairs n ((k, v) # kvs) = Inr b"
      and w: "\<forall>(k', v') \<in> set ((k, v) # kvs). hashable k' \<and> py_wf k' \<and> py_wf v'"
      and di: "distinct (map (\<lambda>kv. key_norm (fst kv)) (acc @ (k, v) # kvs))"
      and le: "n \<le> d"
    from p obtain bk bv bkvs where h: "pack_obj n k = Inr bk" "pack_obj n v = Inr bv"
      "pack_pairs n kvs = Inr bkvs" "b = bk @ bv @ bkvs"
      by (auto simp: bind_bytes_Inr)
    from w have wk: "hashable k" "py_wf k" "py_wf v"
      and wkvs: "\<forall>(k', v') \<in> set kvs. hashable k' \<and> py_wf k' \<and> py_wf v'" by simp_all
    from di have fresh: "key_norm k \<notin> set (map (\<lambda>kv. key_norm (fst kv)) acc)"
      and di': "distinct (map (\<lambda>kv. key_norm (fst kv)) ((acc @ [(k, v)]) @ kvs))" by auto
    from "12.IH"(1) h(1) wk(2) le
    have a: "unpack_obj d (bk @ (bv @ bkvs @ rest)) = Inr (k, bv @ bkvs @ rest)" by blast
    from "12.IH"(2) h(2) wk(3) le
    have c: "unpack_obj d (bv @ (bkvs @ rest)) = Inr (v, bkvs @ rest)" by blast
    from "12.IH"(3) h(3) wkvs di' le
    have e: "unpack_pairs d (length kvs) (bkvs @ rest) (acc @ [(k, v)])
        = Inr ((acc @ [(k, v)]) @ kvs, rest)" by blast
    from a c e wk(1) dict_set_fresh [OF fresh, of v]
    show "unpack_pairs d (length ((k, v) # kvs)) (b @ rest) acc = Inr (acc @ (k, v) # kvs, rest)"
      by (simp add: h(4))
  qed
qed

lemma unpackb_packb:
  assumes "packb v = Inr b" "py_wf v"
  shows "unpackb b = Inr v"
proof -
  from roundtrip_all(1) [of 512 v]
  have "pack_obj 512 v = Inr b \<longrightarrow> py_wf v \<longrightarrow> (512::nat) \<le> 1024 \<longrightarrow>
      unpack_obj 1024 (b @ []) = Inr (v, [])" by blast
  with assms have "unpack_obj 1024 b = Inr (v, [])" by (simp add: packb_def)
  then show ?thesis by (simp add: unpackb_def)
qed


lemma pack_obj_nonempty:
  "pack_obj n v = Inr b \<Longrightarrow> b \<noteq> []"
proof (cases n)
  case 0
  then show "pack_obj n v = Inr b \<Longrightarrow> b \<noteq> []" by simp
next
  case (Suc m)
  assume p: "pack_obj n v = Inr b"
  show "b \<noteq> []"
  proof (cases v)
    case PNone
    with p Suc show ?thesis by auto
  next
    case (PBool x)
    with p Suc show ?thesis by auto
  next
    case (PInt d)
    with p Suc show ?thesis by (auto simp: pack_int_def split: if_splits)
  next
    case (PStr s)
    with p Suc show ?thesis
      by (auto simp: bind_bytes_Inr pack_str_head_def split: if_splits)
  next
    case (PBytes s)
    with p Suc show ?thesis
      by (auto simp: bind_bytes_Inr pack_bin_head_def split: if_splits)
  next
    case (PList xs)
    with p Suc show ?thesis
      by (auto simp: bind_bytes_Inr pack_array_head_def split: if_splits)
  next
    case (PDict kvs)
    with p Suc show ?thesis
      by (auto simp: bind_bytes_Inr pack_map_head_def split: if_splits)
  qed
qed


lemma pack_packet_Inr:
  assumes "pack_packet ver cmd seq opcode P = Inr frame"
  shows "\<exists>b hdr. packb P = Inr b \<and> length hdr = 6
      \<and> frame = hdr @ be_bytes 4 (length b mod 16777216) @ b"
proof -
  from assms obtain b where b: "packb P = Inr b"
    and r: "0 \<le> ver" "ver < 256" "0 \<le> cmd" "cmd < 65536" "0 \<le> seq" "seq < 256"
      "0 \<le> opcode" "opcode < 65536"
    by (auto simp: pack_packet_def to_bytes_def split: sum.splits if_splits)
  let ?hdr = "be_bytes 1 (nat ver) @ be_bytes 2 (nat cmd) @ be_bytes 1 (nat seq) @ be_bytes 2 (nat opcode)"
  from pack_packet_ok [OF r b] assms
  have "frame = ?hdr @ be_bytes 4 (length b mod 16777216) @ b" by simp
  moreover have "length ?hdr = 6" by (simp add: length_be_bytes del: be_bytes.simps)
  ultimately show ?thesis using b by blast
qed

lemma unpack_packet_with_frame:
  assumes "length hdr = 6" "length p < 16777216" "p \<noteq> []"
  shows "unpack_packet_with decompress (hdr @ be_bytes 4 (length p) @ p) =
    unpackb (case decompress p 99999 of Some d \<Rightarrow> d | None \<Rightarrow> p)"
proof -
  let ?f = "hdr @ be_bytes 4 (length p) @ p"
  have sl: "py_slice 6 10 ?f = be_bytes 4 (length p)"
    using assms(1) by (simp add: py_slice_def length_be_bytes del: be_bytes.simps)
  have "from_bytes (py_slice 6 10 ?f) = length p mod 256 ^ 4"
    by (simp only: sl from_bytes_be_bytes)
  with assms(2) have fb: "from_bytes (py_slice 6 10 ?f) = length p" by simp
  have mk: "from_bytes (py_slice 6 10 ?f) AND 0xFFFFFF = length p"
    using assms(2) by (simp only: fb mask24) simp
  have pl: "py_slice 10 (10 + length p) ?f = p"
    using assms(1) by (simp add: py_slice_def length_be_bytes del: be_bytes.simps)
  show ?thesis
    unfolding unpack_packet_with_def
    by (simp only: mk pl Let_def assms(3) if_True not_False_eq_True)
qed

lemma unpack_packet_frame:
  assumes "length hdr = 6" "length p < 16777216" "p \<noteq> []"
  shows "unpack_packet (hdr @ be_bytes 4 (length p) @ p) =
    unpackb (case lz4_block_decompress p 99999 of Some d \<Rightarrow> d | None \<Rightarrow> p)"
  unfolding unpack_packet_def by (rule unpack_packet_with_frame [OF assms])

text \<open>
  C3 (as the code has it). Decoding the frame that \<^verbatim>\<open>_pack_packet\<close> built gives the
  payload back when the serialised payload (the bytes after the 10-byte header) is
  shorter than \<open>2^24\<close> bytes and the LZ4 decoder, which \<^verbatim>\<open>_unpack_packet\<close> always tries
  first, refuses it. This holds whatever the decoder is: nothing is used of it but that
  it refuses these bytes.
\<close>

theorem codec_round_trip:
  assumes "pack_packet ver cmd seq opcode P = Inr frame" and "py_wf P"
    and "length (drop 10 frame) < 16777216"
    and "decompress (drop 10 frame) 99999 = None"
  shows "unpack_packet_with decompress frame = Inr P"
proof -
  from pack_packet_Inr [OF assms(1)] obtain b hdr where
    b: "packb P = Inr b" and hdr: "length hdr = 6"
    and f: "frame = hdr @ be_bytes 4 (length b mod 16777216) @ b" by blast
  from f hdr have d: "drop 10 frame = b" by (simp add: length_be_bytes del: be_bytes.simps)
  from assms(3) d have lt: "length b < 16777216" by simp
  then have f': "frame = hdr @ be_bytes 4 (length b) @ b" using f by simp
  from b have ne: "b \<noteq> []" unfolding packb_def by (rule pack_obj_nonempty)
  from assms(4) d have z: "decompress b 99999 = None" by simp
  have "unpack_packet_with decompress frame = unpackb b"
    unfolding f' by (simp only: unpack_packet_with_frame [OF hdr lt ne] z option.case)
  also have "\<dots> = Inr P" using b assms(2) by (rule unpackb_packb)
  finally show ?thesis .
qed

lemma packb_start_auth: "packb start_auth = Inr start_auth_bytes"
  by (simp add: packb_def start_auth_def start_auth_bytes_def pack_obj_pos pack_map_head_def
      pack_str_head_def bind_bytes_def)

lemma py_wf_start_auth: "py_wf start_auth"
  by (simp add: start_auth_def cont_def)

lemma lz4_start_auth: "lz4_block_decompress start_auth_bytes 99999 = None"
  by (simp add: start_auth_bytes_def lz4_eval)

lemma start_auth_packet:
  "pack_packet 10 0 2 17 start_auth = Inr ([10, 0, 0, 2, 0, 17, 0, 0, 0, 36] @ start_auth_bytes)"
proof -
  have l: "length start_auth_bytes = 36" by (simp add: start_auth_bytes_def)
  show ?thesis
    using pack_packet_ok [of 10 0 2 17, OF _ _ _ _ _ _ _ _ packb_start_auth]
    by (simp add: be_bytes_2 be_bytes_4 l)
qed

text \<open>
  The witness is the request \<^verbatim>\<open>START_AUTH\<close> of the program, sent with sequence number 2
  and opcode 17. Its 36 bytes start with the token \<open>0x82\<close>: 8 literals and a match from
  \<open>0x5241\<close> bytes back, before the start of the output, which the decoder refuses.
\<close>

theorem codec_round_trip_witness:
  "pack_packet 10 0 2 17 start_auth = Inr ([10, 0, 0, 2, 0, 17, 0, 0, 0, 36] @ start_auth_bytes)
   \<and> py_wf start_auth
   \<and> length (drop 10 ([10, 0, 0, 2, 0, 17, 0, 0, 0, 36] @ start_auth_bytes)) < 16777216
   \<and> lz4_block_decompress (drop 10 ([10, 0, 0, 2, 0, 17, 0, 0, 0, 36] @ start_auth_bytes)) 99999 = None
   \<and> unpack_packet ([10, 0, 0, 2, 0, 17, 0, 0, 0, 36] @ start_auth_bytes) = Inr start_auth"
proof -
  have l: "length (drop 10 ([10, 0, 0, 2, 0, 17, 0, 0, 0, 36] @ start_auth_bytes)) < 16777216"
    by (simp add: start_auth_bytes_def)
  have z: "lz4_block_decompress (drop 10 ([10, 0, 0, 2, 0, 17, 0, 0, 0, 36] @ start_auth_bytes)) 99999 = None"
    by (simp add: lz4_start_auth)
  from codec_round_trip [where decompress = lz4_block_decompress, OF start_auth_packet py_wf_start_auth l z]
  have "unpack_packet ([10, 0, 0, 2, 0, 17, 0, 0, 0, 36] @ start_auth_bytes) = Inr start_auth"
    by (simp only: unpack_packet_def)
  with start_auth_packet py_wf_start_auth l z show ?thesis by blast
qed

lemma packb_abc:
  "packb (PDict [(PStr [0x61, 0x62, 0x63], PStr [0x64, 0x65, 0x66])])
     = Inr [0x81, 0xa3, 0x61, 0x62, 0x63, 0xa3, 0x64, 0x65, 0x66]"
  by (simp add: packb_def pack_obj_pos pack_map_head_def pack_str_head_def bind_bytes_def)

lemma lz4_abc:
  "lz4_block_decompress [0x81, 0xa3, 0x61, 0x62, 0x63, 0xa3, 0x64, 0x65, 0x66] 99999
     = Some [0xa3, 0x61, 0x62, 0x63, 0xa3, 0x64, 0x65, 0x66]"
  by (simp add: lz4_eval)

lemma unpackb_abc_tail:
  "unpackb [0xa3, 0x61, 0x62, 0x63, 0xa3, 0x64, 0x65, 0x66] = Inl ExtraData"
  by (simp add: unpackb_def unpack_obj.simps read_str_def read_n_def)

text \<open>
  The payload \<^verbatim>\<open>{"abc": "def"}\<close> serialises to the 9 bytes \<open>81 a3 'abc' a3 'def'\<close>, which
  are also an LZ4 block: the token \<open>0x81\<close> announces 8 literals, which end the input. The
  decoder returns those 8 bytes, and \<^verbatim>\<open>unpackb\<close> finds a second object after the first:
  decoding the encoded frame raises \<^verbatim>\<open>ExtraData\<close>.
\<close>

theorem round_trip_counterexample:
  "py_wf (PDict [(PStr [0x61, 0x62, 0x63], PStr [0x64, 0x65, 0x66])])
   \<and> pack_packet 10 0 1 6 (PDict [(PStr [0x61, 0x62, 0x63], PStr [0x64, 0x65, 0x66])])
       = Inr [10, 0, 0, 1, 0, 6, 0, 0, 0, 9, 0x81, 0xa3, 0x61, 0x62, 0x63, 0xa3, 0x64, 0x65, 0x66]
   \<and> unpack_packet [10, 0, 0, 1, 0, 6, 0, 0, 0, 9, 0x81, 0xa3, 0x61, 0x62, 0x63, 0xa3, 0x64, 0x65, 0x66]
       = Inl ExtraData"
proof -
  have w: "py_wf (PDict [(PStr [0x61, 0x62, 0x63], PStr [0x64, 0x65, 0x66])])"
    by (simp add: cont_def)
  have p: "pack_packet 10 0 1 6 (PDict [(PStr [0x61, 0x62, 0x63], PStr [0x64, 0x65, 0x66])])
       = Inr [10, 0, 0, 1, 0, 6, 0, 0, 0, 9, 0x81, 0xa3, 0x61, 0x62, 0x63, 0xa3, 0x64, 0x65, 0x66]"
    using pack_packet_ok [of 10 0 1 6, OF _ _ _ _ _ _ _ _ packb_abc]
    by (simp add: be_bytes_2 be_bytes_4)
  have u: "unpack_packet [10, 0, 0, 1, 0, 6, 0, 0, 0, 9, 0x81, 0xa3, 0x61, 0x62, 0x63, 0xa3, 0x64, 0x65, 0x66]
       = Inl ExtraData"
    by (simp add: unpack_packet_def unpack_packet_with_def py_slice_def from_bytes_def lz4_abc unpackb_abc_tail)
  from w p u show ?thesis by blast
qed


text \<open>
  C7 (as the code has it). Let \<open>b\<close> be the serialisation of a payload and \<open>c\<close> a block, not
  empty, that the decoder, with room for 99999 bytes, expands to \<open>b\<close>. If the decoder
  refuses \<open>b\<close> itself, a frame carrying \<open>c\<close> and a frame carrying \<open>b\<close> both decode to the
  payload (both payloads shorter than \<open>2^24\<close> bytes, any six leading header bytes). This
  holds whatever the decoder is.
\<close>

theorem compressed_payload_decodes_alike:
  assumes "packb P = Inr b" and "py_wf P"
    and "decompress c 99999 = Some b"
    and "decompress b 99999 = None"
    and "c \<noteq> []"
    and "length c < 16777216" and "length b < 16777216"
    and "length h1 = 6" and "length h2 = 6"
  shows "unpack_packet_with decompress (h1 @ be_bytes 4 (length c) @ c) = Inr P
     \<and> unpack_packet_with decompress (h2 @ be_bytes 4 (length b) @ b) = Inr P"
proof -
  from assms(1) have ne: "b \<noteq> []" unfolding packb_def by (rule pack_obj_nonempty)
  from assms(1,2) have u: "unpackb b = Inr P" by (rule unpackb_packb)
  have "unpack_packet_with decompress (h1 @ be_bytes 4 (length c) @ c) = unpackb b"
    by (simp only: unpack_packet_with_frame [OF assms(8) assms(6) assms(5)] assms(3) option.case)
  moreover have "unpack_packet_with decompress (h2 @ be_bytes 4 (length b) @ b) = unpackb b"
    by (simp only: unpack_packet_with_frame [OF assms(9) assms(7) ne] assms(4) option.case)
  ultimately show ?thesis using u by simp
qed

lemma packb_reply:
  "packb reply_value
     = Inr [0x81, 0xa7, 0x70, 0x61, 0x79, 0x6c, 0x6f, 0x61, 0x64, 0x81, 0xa2, 0x6f, 0x6b, 0xc3]"
  by (simp add: packb_def reply_value_def pack_obj_pos pack_map_head_def pack_str_head_def
      bind_bytes_def)

lemma py_wf_reply: "py_wf reply_value"
  by (simp add: reply_value_def cont_def)

lemma lz4_e0_reply:
  "lz4_block_decompress
     [0xe0, 0x81, 0xa7, 0x70, 0x61, 0x79, 0x6c, 0x6f, 0x61, 0x64, 0x81, 0xa2, 0x6f, 0x6b, 0xc3] 99999
     = Some [0x81, 0xa7, 0x70, 0x61, 0x79, 0x6c, 0x6f, 0x61, 0x64, 0x81, 0xa2, 0x6f, 0x6b, 0xc3]"
  by (simp add: lz4_eval)

text \<open>
  The witness is the nested payload \<^verbatim>\<open>{"payload": {"ok": true}}\<close>: its 14 bytes are
  refused by the decoder (8 literals announced, then fewer than 8 bytes left and the
  input not at its end), and the block \<open>0xe0\<close> followed by them, one run of 14 literals,
  expands to them.
\<close>

theorem compressed_payload_decodes_alike_witness:
  "packb reply_value
     = Inr [0x81, 0xa7, 0x70, 0x61, 0x79, 0x6c, 0x6f, 0x61, 0x64, 0x81, 0xa2, 0x6f, 0x6b, 0xc3]
   \<and> py_wf reply_value
   \<and> lz4_block_decompress
       [0xe0, 0x81, 0xa7, 0x70, 0x61, 0x79, 0x6c, 0x6f, 0x61, 0x64, 0x81, 0xa2, 0x6f, 0x6b, 0xc3] 99999
       = Some [0x81, 0xa7, 0x70, 0x61, 0x79, 0x6c, 0x6f, 0x61, 0x64, 0x81, 0xa2, 0x6f, 0x6b, 0xc3]
   \<and> lz4_block_decompress
       [0x81, 0xa7, 0x70, 0x61, 0x79, 0x6c, 0x6f, 0x61, 0x64, 0x81, 0xa2, 0x6f, 0x6b, 0xc3] 99999 = None
   \<and> unpack_packet ([10, 0, 0, 1, 0, 6] @ [0, 0, 0, 15] @
       [0xe0, 0x81, 0xa7, 0x70, 0x61, 0x79, 0x6c, 0x6f, 0x61, 0x64, 0x81, 0xa2, 0x6f, 0x6b, 0xc3])
       = Inr reply_value
   \<and> unpack_packet ([10, 0, 0, 1, 0, 6] @ [0, 0, 0, 14] @
       [0x81, 0xa7, 0x70, 0x61, 0x79, 0x6c, 0x6f, 0x61, 0x64, 0x81, 0xa2, 0x6f, 0x6b, 0xc3])
       = Inr reply_value"
proof -
  let ?b = "[0x81, 0xa7, 0x70, 0x61, 0x79, 0x6c, 0x6f, 0x61, 0x64, 0x81, 0xa2, 0x6f, 0x6b, 0xc3] :: bytes"
  let ?c = "[0xe0, 0x81, 0xa7, 0x70, 0x61, 0x79, 0x6c, 0x6f, 0x61, 0x64, 0x81, 0xa2, 0x6f, 0x6b, 0xc3] :: bytes"
  have l: "?c \<noteq> []" "length ?c < 16777216" "length ?b < 16777216"
    "length [10, 0, 0, 1, 0, 6 :: byte] = 6" by simp_all
  have lc: "be_bytes 4 (length ?c) = [0, 0, 0, 15]" "be_bytes 4 (length ?b) = [0, 0, 0, 14]"
    by (simp_all add: be_bytes_4)
  from compressed_payload_decodes_alike
    [where decompress = lz4_block_decompress,
     OF packb_reply py_wf_reply lz4_e0_reply reply_lz4 l(1) l(2) l(3) l(4) l(4)]
  have "unpack_packet ([10, 0, 0, 1, 0, 6] @ be_bytes 4 (length ?c) @ ?c) = Inr reply_value
     \<and> unpack_packet ([10, 0, 0, 1, 0, 6] @ be_bytes 4 (length ?b) @ ?b) = Inr reply_value"
    by (simp only: unpack_packet_def)
  then have "unpack_packet ([10, 0, 0, 1, 0, 6] @ [0, 0, 0, 15] @ ?c) = Inr reply_value
     \<and> unpack_packet ([10, 0, 0, 1, 0, 6] @ [0, 0, 0, 14] @ ?b) = Inr reply_value"
    by (simp only: lc)
  with packb_reply py_wf_reply lz4_e0_reply reply_lz4 show ?thesis by blast
qed

lemma lz4_90_abc:
  "lz4_block_decompress [0x90, 0x81, 0xa3, 0x61, 0x62, 0x63, 0xa3, 0x64, 0x65, 0x66] 99999
     = Some [0x81, 0xa3, 0x61, 0x62, 0x63, 0xa3, 0x64, 0x65, 0x66]"
  by (simp add: lz4_eval)

lemma unpackb_abc:
  "unpackb [0x81, 0xa3, 0x61, 0x62, 0x63, 0xa3, 0x64, 0x65, 0x66]
     = Inr (PDict [(PStr [0x61, 0x62, 0x63], PStr [0x64, 0x65, 0x66])])"
  using unpackb_packb [OF packb_abc] by (simp add: cont_def)

text \<open>
  For \<^verbatim>\<open>{"abc": "def"}\<close> the two frames differ: the frame with the compressed payload
  (token \<open>0x90\<close>, 9 literals) decodes to the dictionary, the frame with the serialisation
  as it is raises \<^verbatim>\<open>ExtraData\<close>.
\<close>

theorem compressed_differs_counterexample:
  "packb (PDict [(PStr [0x61, 0x62, 0x63], PStr [0x64, 0x65, 0x66])])
     = Inr [0x81, 0xa3, 0x61, 0x62, 0x63, 0xa3, 0x64, 0x65, 0x66]
   \<and> lz4_block_decompress [0x90, 0x81, 0xa3, 0x61, 0x62, 0x63, 0xa3, 0x64, 0x65, 0x66] 99999
     = Some [0x81, 0xa3, 0x61, 0x62, 0x63, 0xa3, 0x64, 0x65, 0x66]
   \<and> unpack_packet [10, 0, 0, 1, 0, 6, 0, 0, 0, 10,
                     0x90, 0x81, 0xa3, 0x61, 0x62, 0x63, 0xa3, 0x64, 0x65, 0x66]
     = Inr (PDict [(PStr [0x61, 0x62, 0x63], PStr [0x64, 0x65, 0x66])])
   \<and> unpack_packet [10, 0, 0, 1, 0, 6, 0, 0, 0, 9,
                     0x81, 0xa3, 0x61, 0x62, 0x63, 0xa3, 0x64, 0x65, 0x66]
     = Inl ExtraData"
proof -
  have c: "unpack_packet [10, 0, 0, 1, 0, 6, 0, 0, 0, 10,
                     0x90, 0x81, 0xa3, 0x61, 0x62, 0x63, 0xa3, 0x64, 0x65, 0x66]
     = Inr (PDict [(PStr [0x61, 0x62, 0x63], PStr [0x64, 0x65, 0x66])])"
    by (simp add: unpack_packet_def unpack_packet_with_def py_slice_def from_bytes_def lz4_90_abc unpackb_abc)
  have u: "unpack_packet [10, 0, 0, 1, 0, 6, 0, 0, 0, 9,
                     0x81, 0xa3, 0x61, 0x62, 0x63, 0xa3, 0x64, 0x65, 0x66]
     = Inl ExtraData"
    by (simp add: unpack_packet_def unpack_packet_with_def py_slice_def from_bytes_def lz4_abc unpackb_abc_tail)
  from packb_abc lz4_90_abc c u show ?thesis by blast
qed

end
